theory Spec2Isabelle
  imports Main "HOL-Library.FSet"
begin

section \<open>Strings\<close>

text \<open>
  harvest.py works on Python \<open>str\<close> values. They are modelled as \<open>string\<close>, one
  \<open>char\<close> per code point, so the model covers the code points 0..255 (Latin-1). The
  character classes of Python's Unicode database are written out for that range:
  \<open>str.isspace\<close> (also the regular expression class \<open>\s\<close> and what \<open>str.strip()\<close>
  removes), \<open>str.isdecimal\<close> (the class \<open>\d\<close>), the word characters of \<open>\b\<close>, and
  \<open>str.lower\<close>.
\<close>

definition code :: "char \<Rightarrow> nat" where
  "code c = of_char c"

definition isspace :: "char \<Rightarrow> bool" where
  "isspace c = ((9 \<le> code c \<and> code c \<le> 13) \<or> (28 \<le> code c \<and> code c \<le> 32)
     \<or> code c = 133 \<or> code c = 160)"

definition isdecimal :: "char \<Rightarrow> bool" where
  "isdecimal c = (48 \<le> code c \<and> code c \<le> 57)"

definition islower_az :: "char \<Rightarrow> bool" where
  "islower_az c = (97 \<le> code c \<and> code c \<le> 122)"

text \<open>The class \<open>\w\<close>: alphanumeric (alphabetic, decimal, digit or numeric) or underscore.\<close>

definition isword :: "char \<Rightarrow> bool" where
  "isword c = (isdecimal c \<or> islower_az c \<or> (65 \<le> code c \<and> code c \<le> 90) \<or> code c = 95
     \<or> code c = 170 \<or> code c = 178 \<or> code c = 179 \<or> code c = 181 \<or> code c = 185
     \<or> code c = 186 \<or> (188 \<le> code c \<and> code c \<le> 190) \<or> (192 \<le> code c \<and> code c \<le> 214)
     \<or> (216 \<le> code c \<and> code c \<le> 246) \<or> (248 \<le> code c \<and> code c \<le> 255))"

definition lower_char :: "char \<Rightarrow> char" where
  "lower_char c = (if (65 \<le> code c \<and> code c \<le> 90)
       \<or> (192 \<le> code c \<and> code c \<le> 222 \<and> code c \<noteq> 215)
     then char_of (code c + 32) else c)"

definition lower :: "string \<Rightarrow> string" where
  "lower s = map lower_char s"

text \<open>\<open>s.strip()\<close> and \<open>s.strip('-')\<close>.\<close>

definition strip_by :: "(char \<Rightarrow> bool) \<Rightarrow> string \<Rightarrow> string" where
  "strip_by p s = rev (dropWhile p (rev (dropWhile p s)))"

definition strip :: "string \<Rightarrow> string" where
  "strip s = strip_by isspace s"

text \<open>\<open>sep.join(xs)\<close>.\<close>

fun join :: "string \<Rightarrow> string list \<Rightarrow> string" where
  "join sep [] = []"
| "join sep [x] = x"
| "join sep (x # y # ys) = x @ sep @ join sep (y # ys)"

text \<open>\<open>kw in text\<close> on strings: \<open>kw\<close> occurs as a contiguous substring.\<close>

fun starts_with :: "string \<Rightarrow> string \<Rightarrow> bool" where
  "starts_with [] t = True"
| "starts_with (k # ks) [] = False"
| "starts_with (k # ks) (c # cs) = (k = c \<and> starts_with ks cs)"

fun contains :: "string \<Rightarrow> string \<Rightarrow> bool" where
  "contains kw [] = (kw = [])"
| "contains kw (c # cs) = (starts_with kw (c # cs) \<or> contains kw cs)"

text \<open>
  \<open>str(n)\<close> for an integer: decimal digits, a minus sign for a negative one.
  \<open>str_nat\<close> is the same on a counter that is never negative.
\<close>

definition digit_char :: "nat \<Rightarrow> char" where
  "digit_char d = char_of (48 + d)"

fun str_nat :: "nat \<Rightarrow> string" where
  "str_nat n = (if n < 10 then [digit_char n] else str_nat (n div 10) @ [digit_char (n mod 10)])"

declare str_nat.simps [simp del]

function str_digits :: "int \<Rightarrow> string" where
  "str_digits i = (if i < 10 then [digit_char (nat i)]
     else str_digits (i div 10) @ [digit_char (nat (i mod 10))])"
  by pat_completeness auto
termination
  by (relation "measure nat") auto

declare str_digits.simps [simp del]

definition str_int :: "int \<Rightarrow> string" where
  "str_int i = (if i < 0 then CHR ''-'' # str_digits (- i) else str_digits i)"

section \<open>Text Cleaner\<close>

text \<open>
  \<open>re.sub(pattern, repl, text)\<close> scans from the left; where the pattern matches it writes
  the replacement and goes on after the match, elsewhere it copies one character. The
  three citation patterns start with a bracket and have no choice point: \<open>\d+\<close> takes
  every decimal digit that follows and the closing bracket must come next.
\<close>

text \<open>The rest of the text after \<open>\d+\]\<close>, if the text starts with it.\<close>

definition match_digits_close :: "string \<Rightarrow> string option" where
  "match_digits_close s =
     (case dropWhile isdecimal s of
        [] \<Rightarrow> None
      | c # rest \<Rightarrow> if takeWhile isdecimal s \<noteq> [] \<and> c = CHR '']'' then Some rest else None)"

text \<open>Pattern \<open>\[\d+\]\<close>.\<close>

definition match_num :: "string \<Rightarrow> string option" where
  "match_num s = (case s of [] \<Rightarrow> None
     | c # cs \<Rightarrow> if c = CHR ''['' then match_digits_close cs else None)"

text \<open>Pattern \<open>\[note \d+\]\<close>.\<close>

definition match_note :: "string \<Rightarrow> string option" where
  "match_note s = (if starts_with ''[note '' s then match_digits_close (drop 6 s) else None)"

text \<open>Pattern \<open>\[a\]\<close>.\<close>

definition match_a :: "string \<Rightarrow> string option" where
  "match_a s = (if starts_with ''[a]'' s then Some (drop 3 s) else None)"

lemma match_digits_close_length:
  "match_digits_close s = Some r \<Longrightarrow> length r < length s"
proof -
  assume a: "match_digits_close s = Some r"
  have "length (dropWhile isdecimal s) \<le> length s"
    by (rule length_dropWhile_le)
  with a show ?thesis
    by (auto simp: match_digits_close_def split: list.splits if_splits)
qed

lemma match_num_length: "match_num s = Some r \<Longrightarrow> length r < length s"
  by (auto simp: match_num_def split: list.splits if_splits dest: match_digits_close_length)

lemma match_note_length: "match_note s = Some r \<Longrightarrow> length r < length s"
  by (auto simp: match_note_def split: if_splits dest!: match_digits_close_length)

lemma match_a_length: "match_a s = Some r \<Longrightarrow> s \<noteq> [] \<Longrightarrow> length r < length s"
  by (auto simp: match_a_def split: if_splits)

function sub_num :: "string \<Rightarrow> string" where
  "sub_num [] = []"
| "sub_num (c # cs) =
     (case match_num (c # cs) of Some rest \<Rightarrow> sub_num rest | None \<Rightarrow> c # sub_num cs)"
  by pat_completeness auto
termination
  by (relation "measure length") (auto dest: match_num_length)

function sub_note :: "string \<Rightarrow> string" where
  "sub_note [] = []"
| "sub_note (c # cs) =
     (case match_note (c # cs) of Some rest \<Rightarrow> sub_note rest | None \<Rightarrow> c # sub_note cs)"
  by pat_completeness auto
termination
  by (relation "measure length") (auto dest: match_note_length)

function sub_a :: "string \<Rightarrow> string" where
  "sub_a [] = []"
| "sub_a (c # cs) =
     (case match_a (c # cs) of Some rest \<Rightarrow> sub_a rest | None \<Rightarrow> c # sub_a cs)"
  by pat_completeness auto
termination
  by (relation "measure length") (auto dest: match_a_length)

text \<open>\<open>re.sub(r'\s+', ' ', text)\<close>: every maximal run of whitespace becomes one space.\<close>

function collapse_ws :: "string \<Rightarrow> string" where
  "collapse_ws [] = []"
| "collapse_ws (c # cs) =
     (if isspace c then CHR '' '' # collapse_ws (dropWhile isspace cs) else c # collapse_ws cs)"
  by pat_completeness auto
termination
  by (relation "measure length") (auto simp: less_Suc_eq_le length_dropWhile_le)

definition clean :: "string \<Rightarrow> string" where
  "clean text = strip (collapse_ws (sub_a (sub_note (sub_num text))))"

section \<open>Identifier Generator\<close>

definition is_az09 :: "char \<Rightarrow> bool" where
  "is_az09 c = (islower_az c \<or> (48 \<le> code c \<and> code c \<le> 57))"

text \<open>\<open>re.sub(r'[^a-z0-9]+', '-', s)\<close>: every maximal run of other characters becomes one hyphen.\<close>

function sub_non_az09 :: "string \<Rightarrow> string" where
  "sub_non_az09 [] = []"
| "sub_non_az09 (c # cs) =
     (if \<not> is_az09 c then CHR ''-'' # sub_non_az09 (dropWhile (\<lambda>x. \<not> is_az09 x) cs)
      else c # sub_non_az09 cs)"
  by pat_completeness auto
termination
  by (relation "measure length") (auto simp: less_Suc_eq_le length_dropWhile_le)

definition slugify :: "string \<Rightarrow> int \<Rightarrow> string" where
  "slugify text year =
     (let s = sub_non_az09 (lower (str_int year @ ''-'' @ take 40 text))
      in strip_by (\<lambda>c. c = CHR ''-'') s)"

section \<open>Category Guesser\<close>

datatype error = IndexError | KeyError | ValueError

definition VALID_CATEGORIES :: "string list" where
  "VALID_CATEGORIES =
     [''Economic Collapse'',
      ''Tech Apocalypse'',
      ''Environmental Doom'',
      ''Political Catastrophe'',
      ''Health Crisis'',
      ''Social Breakdown'',
      ''Food & Resource Scarcity'',
      ''War & Conflict'']"

definition CATEGORY_KEYWORDS :: "(string \<times> string list) list" where
  "CATEGORY_KEYWORDS =
     [(''Economic Collapse'', [''economy'', ''financial'', ''stock'', ''crash'', ''bank'',
         ''depression'', ''debt'', ''dollar'', ''inflation'', ''recession'']),
      (''Tech Apocalypse'', [''computer'', ''internet'', ''ai'', ''robot'', ''nuclear plant'',
         ''technology'', ''software'', ''cyber'', ''y2k'']),
      (''Environmental Doom'', [''climate'', ''ozone'', ''pollution'', ''asteroid'', ''comet'',
         ''flood'', ''ice age'', ''warming'', ''cooling'', ''sea level'', ''extinction'',
         ''biodiversity'']),
      (''Political Catastrophe'', [''war'', ''election'', ''government'', ''fascism'',
         ''communism'', ''dictatorship'', ''coup'', ''democracy'']),
      (''Health Crisis'', [''pandemic'', ''plague'', ''virus'', ''disease'', ''epidemic'', ''flu'',
         ''cancer'', ''aids'', ''ebola'', ''bacteria'']),
      (''Social Breakdown'', [''crime'', ''drugs'', ''violence'', ''moral'', ''youth'', ''media'',
         ''society'', ''culture'']),
      (''Food & Resource Scarcity'', [''food'', ''famine'', ''hunger'', ''water'', ''oil'',
         ''energy'', ''resource'', ''population'', ''starvation'']),
      (''War & Conflict'', [''nuclear war'', ''world war'', ''armageddon'', ''invasion'',
         ''missile'', ''bomb'', ''military''])]"

text \<open>
  The \<open>scores\<close> dictionary, in insertion order. \<open>scores[k]\<close> raises KeyError for a missing
  key; \<open>scores[k] = v\<close> overwrites in place or appends.
\<close>

type_synonym scores = "(string \<times> int) list"

fun dict_get :: "scores \<Rightarrow> string \<Rightarrow> error + int" where
  "dict_get [] k = Inl KeyError"
| "dict_get ((k', v) # d) k = (if k' = k then Inr v else dict_get d k)"

fun dict_set :: "scores \<Rightarrow> string \<Rightarrow> int \<Rightarrow> scores" where
  "dict_set [] k v = [(k, v)]"
| "dict_set ((k', v') # d) k v = (if k' = k then (k', v) # d else (k', v') # dict_set d k v)"

text \<open>The inner loop: \<open>for kw in keywords: if kw in text: scores[cat] += 1\<close>.\<close>

fun count_keywords :: "string \<Rightarrow> string \<Rightarrow> string list \<Rightarrow> scores \<Rightarrow> error + scores" where
  "count_keywords text cat [] sc = Inr sc"
| "count_keywords text cat (kw # kws) sc =
     (if contains kw text
      then (case dict_get sc cat of
              Inl e \<Rightarrow> Inl e
            | Inr v \<Rightarrow> count_keywords text cat kws (dict_set sc cat (v + 1)))
      else count_keywords text cat kws sc)"

text \<open>The outer loop: \<open>for cat, keywords in CATEGORY_KEYWORDS.items()\<close>.\<close>

fun score_categories :: "string \<Rightarrow> (string \<times> string list) list \<Rightarrow> scores \<Rightarrow> error + scores" where
  "score_categories text [] sc = Inr sc"
| "score_categories text ((cat, keywords) # rest) sc =
     (case count_keywords text cat keywords sc of
        Inl e \<Rightarrow> Inl e
      | Inr sc' \<Rightarrow> score_categories text rest sc')"

text \<open>
  \<open>max(scores, key=scores.get)\<close>: the keys in order, a later key replaces the best one only
  when its value is strictly greater; ValueError on an empty dictionary.
\<close>

fun max_loop :: "scores \<Rightarrow> string \<times> int \<Rightarrow> string \<times> int" where
  "max_loop [] best = best"
| "max_loop (x # xs) best = max_loop xs (if snd x > snd best then x else best)"

definition max_by_value :: "scores \<Rightarrow> error + string" where
  "max_by_value sc = (case sc of [] \<Rightarrow> Inl ValueError | x # xs \<Rightarrow> Inr (fst (max_loop xs x)))"

definition guess_category :: "string \<Rightarrow> error + string" where
  "guess_category text0 =
     (let text = lower text0;
          scores = map (\<lambda>cat. (cat, 0)) VALID_CATEGORIES
      in case score_categories text CATEGORY_KEYWORDS scores of
           Inl e \<Rightarrow> Inl e
         | Inr scores \<Rightarrow>
             (case max_by_value scores of
                Inl e \<Rightarrow> Inl e
              | Inr best \<Rightarrow>
                  (case dict_get scores best of
                     Inl e \<Rightarrow> Inl e
                   | Inr v \<Rightarrow> Inr (if v > 0 then best else ''Political Catastrophe''))))"

section \<open>Row Classifier\<close>

text \<open>An exception leaves a function as \<open>Inl\<close>; \<open>and_then\<close> passes it on.\<close>

definition and_then :: "error + 'a \<Rightarrow> ('a \<Rightarrow> error + 'b) \<Rightarrow> error + 'b" where
  "and_then m f = (case m of Inl e \<Rightarrow> Inl e | Inr x \<Rightarrow> f x)"

text \<open>\<open>xs[i]\<close> for a constant index \<open>i \<ge> 0\<close>: IndexError out of range.\<close>

definition index :: "'a list \<Rightarrow> nat \<Rightarrow> error + 'a" where
  "index xs i = (if i < length xs then Inr (xs ! i) else Inl IndexError)"

text \<open>
  \<open>int(s)\<close> on a string of decimal digits. Python accepts more (a sign, blanks around,
  underscores); the model raises ValueError on everything else, which is the stricter reading.
\<close>

definition py_int :: "string \<Rightarrow> error + int" where
  "py_int s = (if s \<noteq> [] \<and> list_all isdecimal s
     then Inr (foldl (\<lambda>a c. 10 * a + int (code c - 48)) 0 s) else Inl ValueError)"

text \<open>
  \<open>re.search(r'\b(1[0-9]{3}|20[0-2][0-9])\b', s)\<close>. Both alternatives are four characters
  long and start with a word character, so the first \<open>\b\<close> holds at the start of the
  string or after a non-word character, the second at the end or before a non-word
  character. The search returns the leftmost match; \<open>prev\<close> is the character before the
  current position.
\<close>

definition is_09 :: "char \<Rightarrow> bool" where
  "is_09 c = (48 \<le> code c \<and> code c \<le> 57)"

definition is_year_token :: "string \<Rightarrow> bool" where
  "is_year_token t = (case t of
       [a, b, c, d] \<Rightarrow>
         (a = CHR ''1'' \<and> is_09 b \<and> is_09 c \<and> is_09 d)
         \<or> (a = CHR ''2'' \<and> b = CHR ''0'' \<and> (48 \<le> code c \<and> code c \<le> 50) \<and> is_09 d)
     | _ \<Rightarrow> False)"

fun search_year :: "char option \<Rightarrow> string \<Rightarrow> string option" where
  "search_year prev [] = None"
| "search_year prev (c # cs) =
     (if (case prev of None \<Rightarrow> True | Some p \<Rightarrow> \<not> isword p)
         \<and> is_year_token (take 4 (c # cs))
         \<and> (case drop 4 (c # cs) of [] \<Rightarrow> True | n # _ \<Rightarrow> \<not> isword n)
      then Some (take 4 (c # cs))
      else search_year (Some c) cs)"

record entry =
  id' :: string
  year :: int
  prediction :: string
  source :: string
  reality :: string
  category :: string
  tags :: "string list"
  harvested :: bool

lemma str_nat_nonempty: "str_nat n \<noteq> []"
  by (subst str_nat.simps) simp

lemma digit_char_inj: "a < 10 \<Longrightarrow> b < 10 \<Longrightarrow> digit_char a = digit_char b \<Longrightarrow> a = b"
proof -
  assume a: "a < 10" and b: "b < 10" and e: "digit_char a = digit_char b"
  from e have "(of_char (char_of (48 + a) :: char) :: nat) = of_char (char_of (48 + b) :: char)"
    by (simp add: digit_char_def)
  with a b show ?thesis by (simp add: of_char_of)
qed

lemma str_nat_length: "10 \<le> n \<Longrightarrow> 2 \<le> length (str_nat n)"
proof -
  assume "10 \<le> n"
  then have "str_nat n = str_nat (n div 10) @ [digit_char (n mod 10)]"
    by (subst str_nat.simps) simp
  moreover have "1 \<le> length (str_nat (n div 10))"
    using str_nat_nonempty [of "n div 10"] by (cases "str_nat (n div 10)") simp_all
  ultimately show ?thesis by simp
qed

lemma str_nat_inj: "str_nat n = str_nat m \<Longrightarrow> n = m"
proof (induction n arbitrary: m rule: str_nat.induct)
  case (1 n)
  show ?case
  proof (cases "n < 10")
    case True
    show ?thesis
    proof (cases "m < 10")
      case m: True
      from "1.prems" True m have "digit_char n = digit_char m"
        by (simp add: str_nat.simps [of n] str_nat.simps [of m])
      with True m show ?thesis by (rule digit_char_inj)
    next
      case m: False
      then have "2 \<le> length (str_nat m)" by (simp add: str_nat_length)
      moreover from True have "length (str_nat n) = 1" by (simp add: str_nat.simps [of n])
      ultimately show ?thesis using "1.prems" by simp
    qed
  next
    case False
    show ?thesis
    proof (cases "m < 10")
      case m: True
      from False have "2 \<le> length (str_nat n)" by (simp add: str_nat_length)
      moreover from m have "length (str_nat m) = 1" by (simp add: str_nat.simps [of m])
      ultimately show ?thesis using "1.prems" by simp
    next
      case m: False
      from "1.prems" False m
      have e: "str_nat (n div 10) @ [digit_char (n mod 10)]
          = str_nat (m div 10) @ [digit_char (m mod 10)]"
        by (simp add: str_nat.simps [of n] str_nat.simps [of m])
      then have "str_nat (n div 10) = str_nat (m div 10)"
        and d: "digit_char (n mod 10) = digit_char (m mod 10)"
        by simp_all
      with "1.IH" False have q: "n div 10 = m div 10" by blast
      have "n mod 10 = m mod 10"
        by (rule digit_char_inj [OF _ _ d]) simp_all
      with q show ?thesis by (metis div_mult_mod_eq)
    qed
  qed
qed

text \<open>
  The collision loop:
  \<^verbatim>\<open>while entry_id in existing_ids: entry_id = f"{base_id}-{counter}"; counter += 1\<close>.
  The counter starts at 1 and only counts up, so it is a \<open>nat\<close>.
\<close>

definition suffixed :: "string \<Rightarrow> nat \<Rightarrow> string" where
  "suffixed base_id counter = base_id @ ''-'' @ str_nat counter"

lemma suffixed_inj: "suffixed b n = suffixed b m \<Longrightarrow> n = m"
  by (simp add: suffixed_def str_nat_inj)

lemma finite_suffixed: "finite {k. suffixed b k |\<in>| ids}"
proof -
  have "inj (suffixed b)" by (rule injI) (rule suffixed_inj)
  then have "finite (suffixed b -` fset ids)" by (simp add: finite_vimageI)
  then show ?thesis by (simp add: vimage_def)
qed

function collision_loop :: "string \<Rightarrow> string fset \<Rightarrow> string \<Rightarrow> nat \<Rightarrow> string" where
  "collision_loop base_id existing_ids entry_id counter =
     (if entry_id |\<in>| existing_ids
      then collision_loop base_id existing_ids (suffixed base_id counter) (counter + 1)
      else entry_id)"
  by pat_completeness auto
termination
proof (relation "measure (\<lambda>(b, ids, e, c).
    card {k. c \<le> k \<and> suffixed b k |\<in>| ids} + (if e |\<in>| ids then 1 else 0))")
  show "wf (measure (\<lambda>(b, ids, e, c).
    card {k. c \<le> k \<and> suffixed b k |\<in>| ids} + (if e |\<in>| ids then 1 else 0)))"
    by simp
next
  fix base_id :: string and existing_ids :: "string fset" and entry_id :: string and counter :: nat
  assume "entry_id |\<in>| existing_ids"
  let ?S = "\<lambda>c. {k. c \<le> k \<and> suffixed base_id k |\<in>| existing_ids}"
  have fin: "finite (?S counter)"
    by (rule finite_subset [OF _ finite_suffixed [of base_id existing_ids]]) auto
  have "card (?S (counter + 1)) + (if suffixed base_id counter |\<in>| existing_ids then 1 else 0)
      \<le> card (?S counter)"
  proof (cases "suffixed base_id counter |\<in>| existing_ids")
    case True
    have "?S counter = insert counter (?S (counter + 1))"
      using True by (auto simp: le_Suc_eq)
    moreover have "counter \<notin> ?S (counter + 1)" by simp
    moreover have "finite (?S (counter + 1))"
      by (rule finite_subset [OF _ fin]) auto
    ultimately show ?thesis using True by simp
  next
    case False
    have "?S (counter + 1) \<subseteq> ?S counter" by auto
    with False fin show ?thesis by (simp add: card_mono)
  qed
  with \<open>entry_id |\<in>| existing_ids\<close>
  show "((base_id, existing_ids, suffixed base_id counter, counter + 1),
         (base_id, existing_ids, entry_id, counter))
      \<in> measure (\<lambda>(b, ids, e, c).
          card {k. c \<le> k \<and> suffixed b k |\<in>| ids} + (if e |\<in>| ids then 1 else 0))"
    by simp
qed

declare collision_loop.simps [simp del]

text \<open>
  The source also lists the one-character string U+2014 (an em dash) among the
  low-information tokens; no string over the code points 0..255 equals it, so over the
  model's strings the membership test is the one against the five other tokens.
\<close>

definition LOW_INFORMATION :: "string list" where
  "LOW_INFORMATION = [''no'', ''yes'', ''none'', ''n/a'', ''-'']"

definition HEADER_WORDS :: "string list" where
  "HEADER_WORDS = [''date'', ''year'', ''century'', ''event'', ''prediction'']"

definition row_to_entry :: "string list \<Rightarrow> string \<Rightarrow> string fset \<Rightarrow> error + entry option" where
  "row_to_entry row hint existing_ids =
     (if length row < 3 then Inr None
      else
        let cells = map clean row in
        and_then (index cells 0) (\<lambda>c0.
        if list_ex (\<lambda>h. contains h (lower c0)) HEADER_WORDS then Inr None
        else if length cells < 3 then Inr None
        else
        and_then (index cells 0) (\<lambda>c0.
        if c0 = [] then Inr None
        else
        and_then (index cells 0) (\<lambda>c0.
        case search_year None c0 of
          None \<Rightarrow> Inr None
        | Some group1 \<Rightarrow>
        and_then (py_int group1) (\<lambda>year.
        if year \<ge> 2026 then Inr None
        else
        and_then
          (if length cells \<ge> 4
           then and_then (index cells 1) (\<lambda>claimant.
                and_then (index cells 2) (\<lambda>prediction.
                and_then (if length cells > 3 then index cells 3 else Inr [])
                  (\<lambda>outcome. Inr (claimant, prediction, outcome))))
           else and_then (index cells 1) (\<lambda>claimant.
                and_then (index cells 1) (\<lambda>prediction.
                and_then (if length cells > 2 then index cells 2 else Inr [])
                  (\<lambda>outcome. Inr (claimant, prediction, outcome)))))
          (\<lambda>(claimant, prediction, outcome).
        if prediction = [] \<or> length prediction < 15 then Inr None
        else
        let base_id = slugify (claimant @ ''-'' @ take 20 prediction) year;
            entry_id = collision_loop base_id existing_ids base_id 1;
            combined = prediction @ '' '' @ outcome @ '' '' @ hint
        in
        and_then (guess_category combined) (\<lambda>category.
        let reality =
              (if outcome \<noteq> [] \<and> length outcome > 20 \<and> lower outcome \<notin> set LOW_INFORMATION
               then outcome
               else ''The predicted event did not occur as described by ''
                    @ str_int (if year < 2020 then year + 5 else 2025) @ ''.'')
        in
        Inr (Some \<lparr>id' = entry_id,
                   year = year,
                   prediction = prediction,
                   source = (if claimant \<noteq> [] \<and> claimant \<noteq> prediction
                             then claimant else ''Unknown''),
                   reality = reality,
                   category = category,
                   tags = [],
                   harvested = True\<rparr>))))))))"

section \<open>Table Extractor\<close>

text \<open>
  \<open>TableParser\<close> subclasses the standard library's \<open>HTMLParser\<close>, whose \<open>feed\<close> cuts
  the markup into calls of \<open>handle_starttag\<close> (tag name in lower case; the attributes
  are not used), \<open>handle_endtag\<close> and \<open>handle_data\<close>. The model starts from that
  sequence of calls.
\<close>

datatype event = StartTag string | EndTag string | Data string

record parser =
  tables :: "string list list list"
  current_table :: "string list list option"
  current_row :: "string list option"
  current_cell :: "string list option"
  depth :: int

definition init_parser :: parser where
  "init_parser = \<lparr>tables = [], current_table = None, current_row = None,
     current_cell = None, depth = 0\<rparr>"

definition handle_starttag :: "parser \<Rightarrow> string \<Rightarrow> parser" where
  "handle_starttag p tag =
     (if tag = ''table'' then
        (let p1 = p\<lparr>depth := depth p + 1\<rparr>
         in if depth p1 = 1 then p1\<lparr>current_table := Some []\<rparr> else p1)
      else if tag \<in> set [''tr''] \<and> depth p = 1 then p\<lparr>current_row := Some []\<rparr>
      else if tag \<in> set [''td'', ''th''] \<and> depth p = 1 \<and> current_row p \<noteq> None
        then p\<lparr>current_cell := Some []\<rparr>
      else p)"

definition handle_endtag :: "parser \<Rightarrow> string \<Rightarrow> parser" where
  "handle_endtag p tag =
     (if tag = ''table'' then
        (let p1 = (case current_table p of
                     Some t \<Rightarrow> if depth p = 1
                       then p\<lparr>tables := tables p @ [t], current_table := None\<rparr> else p
                   | None \<Rightarrow> p)
         in p1\<lparr>depth := depth p1 - 1\<rparr>)
      else if tag = ''tr'' \<and> depth p = 1 then
        (let p1 = (case (current_row p, current_table p) of
                     (Some r, Some t) \<Rightarrow> if r \<noteq> []
                       then p\<lparr>current_table := Some (t @ [r])\<rparr> else p
                   | _ \<Rightarrow> p)
         in p1\<lparr>current_row := None\<rparr>)
      else if tag \<in> set [''td'', ''th''] \<and> depth p = 1 then
        (let p1 = (case (current_cell p, current_row p) of
                     (Some c, Some r) \<Rightarrow> p\<lparr>current_row := Some (r @ [strip (join '' '' c)])\<rparr>
                   | _ \<Rightarrow> p)
         in p1\<lparr>current_cell := None\<rparr>)
      else p)"

definition handle_data :: "parser \<Rightarrow> string \<Rightarrow> parser" where
  "handle_data p data =
     (case current_cell p of
        Some c \<Rightarrow>
          (let stripped = strip data
           in if stripped \<noteq> [] then p\<lparr>current_cell := Some (c @ [stripped])\<rparr> else p)
      | None \<Rightarrow> p)"

fun handle :: "parser \<Rightarrow> event \<Rightarrow> parser" where
  "handle p (StartTag tag) = handle_starttag p tag"
| "handle p (EndTag tag) = handle_endtag p tag"
| "handle p (Data data) = handle_data p data"

definition feed :: "parser \<Rightarrow> event list \<Rightarrow> parser" where
  "feed p evs = foldl handle p evs"

definition extract_tables :: "event list \<Rightarrow> string list list list" where
  "extract_tables html = tables (feed init_parser html)"

section \<open>The classification loop of \<open>main\<close>\<close>

text \<open>
  A target is a title, a hint and what \<open>wiki_fetch_html\<close> and \<open>extract_tables\<close> gave for
  it: \<open>None\<close> when either raised (the target is then skipped), the tables otherwise.
  \<open>limit\<close> is \<open>args.limit\<close>; the state is \<open>new_entries\<close> and \<open>existing_ids\<close>.
\<close>

record run_state =
  new_entries :: "entry list"
  existing_ids :: "string fset"

definition limit_reached :: "int \<Rightarrow> run_state \<Rightarrow> bool" where
  "limit_reached limit st = (limit \<noteq> 0 \<and> int (length (new_entries st)) \<ge> limit)"

fun rows_loop :: "int \<Rightarrow> string \<Rightarrow> string list list \<Rightarrow> run_state \<Rightarrow> error + run_state" where
  "rows_loop limit hint [] st = Inr st"
| "rows_loop limit hint (row # rows) st =
     (case row_to_entry row hint
             (existing_ids st |\<union>| fset_of_list (map id' (new_entries st))) of
        Inl e \<Rightarrow> Inl e
      | Inr None \<Rightarrow> rows_loop limit hint rows st
      | Inr (Some entry) \<Rightarrow>
          (let st' = st\<lparr>new_entries := new_entries st @ [entry],
                         existing_ids := finsert (id' entry) (existing_ids st)\<rparr>
           in if limit_reached limit st' then Inr st' else rows_loop limit hint rows st'))"

fun tables_loop :: "int \<Rightarrow> string \<Rightarrow> string list list list \<Rightarrow> run_state \<Rightarrow> error + run_state" where
  "tables_loop limit hint [] st = Inr st"
| "tables_loop limit hint (table # rest) st =
     (case rows_loop limit hint table st of
        Inl e \<Rightarrow> Inl e
      | Inr st' \<Rightarrow> if limit_reached limit st' then Inr st' else tables_loop limit hint rest st')"

fun targets_loop ::
  "int \<Rightarrow> (string \<times> string \<times> string list list list option) list \<Rightarrow> run_state
     \<Rightarrow> error + run_state" where
  "targets_loop limit [] st = Inr st"
| "targets_loop limit ((title, hint, fetched) # rest) st =
     (case fetched of
        None \<Rightarrow> targets_loop limit rest st
      | Some tabs \<Rightarrow>
          (case tables_loop limit (hint @ '' '' @ title) tabs st of
             Inl e \<Rightarrow> Inl e
           | Inr st' \<Rightarrow> if limit_reached limit st' then Inr st' else targets_loop limit rest st'))"

definition main_loop ::
  "int \<Rightarrow> (string \<times> string \<times> string list list list option) list \<Rightarrow> string fset
     \<Rightarrow> error + run_state" where
  "main_loop limit targets ids0 = targets_loop limit targets \<lparr>new_entries = [], existing_ids = ids0\<rparr>"

section \<open>Properties of the Category Guesser\<close>

text \<open>
  The spec's score of a category: the number of its keyword phrases that occur as
  substrings of the lower-cased text.
\<close>

definition keywords_of :: "string \<Rightarrow> string list" where
  "keywords_of cat = (case map_of CATEGORY_KEYWORDS cat of Some kws \<Rightarrow> kws | None \<Rightarrow> [])"

definition kw_score :: "string \<Rightarrow> string \<Rightarrow> int" where
  "kw_score text cat = int (length (filter (\<lambda>kw. contains kw (lower text)) (keywords_of cat)))"

fun add_first :: "scores \<Rightarrow> string \<Rightarrow> int \<Rightarrow> scores" where
  "add_first [] k n = []"
| "add_first ((k', v) # d) k n = (if k' = k then (k', v + n) # d else (k', v) # add_first d k n)"

lemma add_first_zero: "add_first sc k 0 = sc"
  by (induction sc) auto

lemma add_first_keys: "map fst (add_first sc k n) = map fst sc"
  by (induction sc) auto

lemma add_first_twice: "add_first (add_first sc k n) k m = add_first sc k (n + m)"
  by (induction sc) auto

lemma dict_get_present: "k \<in> fst ` set sc \<Longrightarrow> \<exists>v. dict_get sc k = Inr v"
  by (induction sc) force+

lemma dict_set_add_first: "dict_get sc k = Inr v \<Longrightarrow> dict_set sc k (v + n) = add_first sc k n"
  by (induction sc) (auto split: if_splits)

lemma count_keywords_add:
  "cat \<in> fst ` set sc \<Longrightarrow>
   count_keywords text cat kws sc
     = Inr (add_first sc cat (int (length (filter (\<lambda>kw. contains kw text) kws))))"
proof (induction kws arbitrary: sc)
  case Nil
  then show ?case by (simp add: add_first_zero)
next
  case (Cons kw kws)
  show ?case
  proof (cases "contains kw text")
    case True
    from Cons.prems obtain v where v: "dict_get sc cat = Inr v"
      using dict_get_present by blast
    have k: "cat \<in> fst ` set (add_first sc cat 1)"
      using Cons.prems add_first_keys [of sc cat 1] by (metis list.set_map image_set)
    from True v show ?thesis
      by (simp add: dict_set_add_first Cons.IH [OF k] add_first_twice)
  next
    case False
    with Cons show ?thesis by simp
  qed
qed


lemma add_first_skip:
  "k \<notin> fst ` set dn \<Longrightarrow> add_first (dn @ (k, v) # rest) k n = dn @ (k, v + n) # rest"
  by (induction dn) auto

definition hits :: "string \<Rightarrow> string list \<Rightarrow> int" where
  "hits text kws = int (length (filter (\<lambda>kw. contains kw text) kws))"

lemma score_categories_general:
  "distinct (map fst cks) \<Longrightarrow> fst ` set dn \<inter> fst ` set cks = {} \<Longrightarrow>
   score_categories text cks (dn @ map (\<lambda>ck. (fst ck, 0)) cks)
     = Inr (dn @ map (\<lambda>ck. (fst ck, hits text (snd ck))) cks)"
proof (induction cks arbitrary: dn)
  case Nil
  then show ?case by simp
next
  case (Cons ck cks)
  obtain c kws where ck: "ck = (c, kws)" by (cases ck)
  from Cons.prems ck have notin: "c \<notin> fst ` set dn" by auto
  have step: "count_keywords text c kws (dn @ (c, 0) # map (\<lambda>ck. (fst ck, 0)) cks)
      = Inr (dn @ (c, hits text kws) # map (\<lambda>ck. (fst ck, 0)) cks)"
    by (subst count_keywords_add) (simp_all add: add_first_skip [OF notin] hits_def)
  have d: "distinct (map fst cks)" using Cons.prems by simp
  have disj: "fst ` set (dn @ [(c, hits text kws)]) \<inter> fst ` set cks = {}"
    using Cons.prems ck by auto
  from Cons.IH [OF d disj] step ck show ?case by simp
qed

lemma keys_eq: "map fst CATEGORY_KEYWORDS = VALID_CATEGORIES"
  by (simp add: CATEGORY_KEYWORDS_def VALID_CATEGORIES_def)

lemma valid_distinct: "distinct VALID_CATEGORIES"
  by (simp add: VALID_CATEGORIES_def)

lemma keywords_of_member:
  "ck \<in> set CATEGORY_KEYWORDS \<Longrightarrow> keywords_of (fst ck) = snd ck"
proof -
  assume "ck \<in> set CATEGORY_KEYWORDS"
  then have m: "(fst ck, snd ck) \<in> set CATEGORY_KEYWORDS" by simp
  have d: "distinct (map fst CATEGORY_KEYWORDS)"
    by (simp add: keys_eq valid_distinct)
  have "map_of CATEGORY_KEYWORDS (fst ck) = Some (snd ck)"
    by (rule map_of_is_SomeI [OF d m])
  then show ?thesis by (simp add: keywords_of_def)
qed

lemma scores_computed:
  "score_categories (lower text) CATEGORY_KEYWORDS (map (\<lambda>cat. (cat, 0)) VALID_CATEGORIES)
     = Inr (map (\<lambda>cat. (cat, kw_score text cat)) VALID_CATEGORIES)"
proof -
  have a: "map (\<lambda>cat. (cat, 0 :: int)) VALID_CATEGORIES = map (\<lambda>ck. (fst ck, 0)) CATEGORY_KEYWORDS"
    by (simp add: keys_eq [symmetric] comp_def)
  have b: "map (\<lambda>cat. (cat, kw_score text cat)) VALID_CATEGORIES
      = map (\<lambda>ck. (fst ck, hits (lower text) (snd ck))) CATEGORY_KEYWORDS"
    by (simp add: keys_eq [symmetric] comp_def kw_score_def hits_def keywords_of_member)
  have "distinct (map fst CATEGORY_KEYWORDS)"
    by (simp add: keys_eq valid_distinct)
  then have "score_categories (lower text) CATEGORY_KEYWORDS
      ([] @ map (\<lambda>ck. (fst ck, 0)) CATEGORY_KEYWORDS)
    = Inr ([] @ map (\<lambda>ck. (fst ck, hits (lower text) (snd ck))) CATEGORY_KEYWORDS)"
    by (rule score_categories_general) simp
  with a b show ?thesis by simp
qed

lemma max_loop_first:
  "\<exists>pre post. best # xs = pre @ max_loop xs best # post
     \<and> (\<forall>x \<in> set pre. snd x < snd (max_loop xs best))
     \<and> (\<forall>x \<in> set post. snd x \<le> snd (max_loop xs best))"
proof (induction xs arbitrary: best)
  case Nil
  show ?case by (rule exI [of _ "[]"]) simp
next
  case (Cons x xs)
  define b where "b = (if snd x > snd best then x else best)"
  define r where "r = max_loop xs b"
  from Cons.IH [of b] obtain pre post where
    dec: "b # xs = pre @ r # post" and
    lt: "\<forall>y \<in> set pre. snd y < snd r" and
    le: "\<forall>y \<in> set post. snd y \<le> snd r" unfolding r_def by blast
  have r: "max_loop (x # xs) best = r" by (simp add: r_def b_def)
  have ble: "snd b \<le> snd r"
  proof (cases pre)
    case Nil
    with dec show ?thesis by simp
  next
    case (Cons p ps)
    with dec lt show ?thesis by auto
  qed
  show ?case
  proof (cases "snd x > snd best")
    case True
    then have bx: "b = x" by (simp add: b_def)
    have "best # x # xs = (best # pre) @ r # post" using dec bx by simp
    moreover have "\<forall>y \<in> set (best # pre). snd y < snd r" using lt ble True bx by auto
    ultimately show ?thesis using le unfolding r by blast
  next
    case False
    then have bb: "b = best" by (simp add: b_def)
    show ?thesis
    proof (cases pre)
      case Nil
      with dec bb have rb: "r = best" and "post = xs" by simp_all
      then have "best # x # xs = [] @ r # (x # post)" by simp
      moreover have "\<forall>y \<in> set (x # post). snd y \<le> snd r"
        using le False rb by auto
      moreover have "\<forall>y \<in> set ([] :: (string \<times> int) list). snd y < snd r" by simp
      ultimately show ?thesis unfolding r by blast
    next
      case (Cons p ps)
      with dec bb have p: "p = best" and xs: "xs = ps @ r # post" by simp_all
      have "best # x # xs = (best # x # ps) @ r # post" using xs by simp
      moreover have "\<forall>y \<in> set (best # x # ps). snd y < snd r"
        using lt Cons p False by auto
      ultimately show ?thesis using le unfolding r by blast
    qed
  qed
qed

lemma dict_get_map: "c \<in> set L \<Longrightarrow> dict_get (map (\<lambda>c. (c, g c)) L) c = Inr (g c)"
  by (induction L) auto

lemma kw_score_nonneg: "0 \<le> kw_score text c"
  by (simp add: kw_score_def)

lemma default_valid: "''Political Catastrophe'' \<in> set VALID_CATEGORIES"
  by (simp add: VALID_CATEGORIES_def)

lemma guess_category_cases:
  "\<exists>c pre post. VALID_CATEGORIES = pre @ c # post
     \<and> (\<forall>c' \<in> set pre. kw_score text c' < kw_score text c)
     \<and> (\<forall>c' \<in> set post. kw_score text c' \<le> kw_score text c)
     \<and> guess_category text
         = Inr (if kw_score text c > 0 then c else ''Political Catastrophe'')"
proof -
  define S where "S = map (\<lambda>cat. (cat, kw_score text cat)) VALID_CATEGORIES"
  have "VALID_CATEGORIES \<noteq> []" by (simp add: VALID_CATEGORIES_def)
  then obtain x xs where S: "S = x # xs" by (cases S) (simp_all add: S_def)
  define r where "r = max_loop xs x"
  from max_loop_first [of x xs] obtain pre post where
    dec: "S = pre @ r # post" and
    lt: "\<forall>y \<in> set pre. snd y < snd r" and
    le: "\<forall>y \<in> set post. snd y \<le> snd r" unfolding r_def S by blast
  have snd_S: "\<And>y. y \<in> set S \<Longrightarrow> snd y = kw_score text (fst y)"
    by (auto simp: S_def)
  have keys: "VALID_CATEGORIES = map fst pre @ fst r # map fst post"
  proof -
    have "map fst S = VALID_CATEGORIES" by (simp add: S_def comp_def)
    with dec show ?thesis by simp
  qed
  have rS: "r \<in> set S" using dec by simp
  have rv: "fst r \<in> set VALID_CATEGORIES" by (subst keys) simp
  have sr: "snd r = kw_score text (fst r)" using snd_S [OF rS] .
  have p1: "\<forall>c' \<in> set (map fst pre). kw_score text c' < kw_score text (fst r)"
  proof
    fix c' assume "c' \<in> set (map fst pre)"
    then obtain y where y: "y \<in> set pre" "c' = fst y" by auto
    then have "y \<in> set S" using dec by simp
    then have "snd y = kw_score text (fst y)" by (rule snd_S)
    moreover have "snd y < snd r" using lt y by blast
    ultimately show "kw_score text c' < kw_score text (fst r)" using sr y by simp
  qed
  have p2: "\<forall>c' \<in> set (map fst post). kw_score text c' \<le> kw_score text (fst r)"
  proof
    fix c' assume "c' \<in> set (map fst post)"
    then obtain y where y: "y \<in> set post" "c' = fst y" by auto
    then have "y \<in> set S" using dec by simp
    then have "snd y = kw_score text (fst y)" by (rule snd_S)
    moreover have "snd y \<le> snd r" using le y by blast
    ultimately show "kw_score text c' \<le> kw_score text (fst r)" using sr y by simp
  qed
  have m: "max_by_value S = Inr (fst r)" by (simp add: max_by_value_def S r_def)
  have g: "dict_get S (fst r) = Inr (kw_score text (fst r))"
    unfolding S_def by (rule dict_get_map [OF rv])
  have "guess_category text
      = Inr (if kw_score text (fst r) > 0 then fst r else ''Political Catastrophe'')"
    by (simp add: guess_category_def scores_computed S_def [symmetric] m g)
  with keys p1 p2 show ?thesis by blast
qed

text \<open>
  Claim C6. For every input text, the empty string included, \<open>guess_category\<close> returns
  (it raises nothing) one of the eight values of \<open>VALID_CATEGORIES\<close>. If every category
  scores zero the result is "Political Catastrophe"; otherwise the result is a category of
  maximal score that comes first in the enumeration: every category listed before it scores
  strictly less, every one after it scores at most as much.
\<close>

theorem guess_category_spec:
  "\<exists>c. guess_category text = Inr c \<and> c \<in> set VALID_CATEGORIES
     \<and> (if \<forall>c' \<in> set VALID_CATEGORIES. kw_score text c' = 0
         then c = ''Political Catastrophe''
         else \<exists>pre post. VALID_CATEGORIES = pre @ c # post
           \<and> (\<forall>c' \<in> set pre. kw_score text c' < kw_score text c)
           \<and> (\<forall>c' \<in> set post. kw_score text c' \<le> kw_score text c))"
proof -
  from guess_category_cases [of "text"] obtain c pre post where
    dec: "VALID_CATEGORIES = pre @ c # post" and
    lt: "\<forall>c' \<in> set pre. kw_score text c' < kw_score text c" and
    le: "\<forall>c' \<in> set post. kw_score text c' \<le> kw_score text c" and
    g: "guess_category text = Inr (if kw_score text c > 0 then c else ''Political Catastrophe'')"
    by blast
  have all_le: "\<forall>c' \<in> set VALID_CATEGORIES. kw_score text c' \<le> kw_score text c"
  proof
    fix c' assume "c' \<in> set VALID_CATEGORIES"
    then have "c' \<in> set (pre @ c # post)" by (simp only: dec)
    then have "c' \<in> set pre \<or> c' = c \<or> c' \<in> set post" by auto
    with lt le show "kw_score text c' \<le> kw_score text c" by force
  qed
  have cv: "c \<in> set VALID_CATEGORIES" by (subst dec) simp
  show ?thesis
  proof (cases "kw_score text c > 0")
    case True
    with g have g1: "guess_category text = Inr c" by simp
    from True cv have nz: "\<not> (\<forall>c' \<in> set VALID_CATEGORIES. kw_score text c' = 0)"
      by force
    from dec lt le have ex: "\<exists>pre post. VALID_CATEGORIES = pre @ c # post
        \<and> (\<forall>c' \<in> set pre. kw_score text c' < kw_score text c)
        \<and> (\<forall>c' \<in> set post. kw_score text c' \<le> kw_score text c)"
      by blast
    show ?thesis
    proof (intro exI [of _ c] conjI)
      show "guess_category text = Inr c" by (rule g1)
      show "c \<in> set VALID_CATEGORIES" by (rule cv)
      show "if \<forall>c' \<in> set VALID_CATEGORIES. kw_score text c' = 0
        then c = ''Political Catastrophe''
        else \<exists>pre post. VALID_CATEGORIES = pre @ c # post
          \<and> (\<forall>c' \<in> set pre. kw_score text c' < kw_score text c)
          \<and> (\<forall>c' \<in> set post. kw_score text c' \<le> kw_score text c)"
        by (subst if_not_P [OF nz]) (rule ex)
    qed
  next
    case False
    with g have g0: "guess_category text = Inr ''Political Catastrophe''" by simp
    have z: "\<forall>c' \<in> set VALID_CATEGORIES. kw_score text c' = 0"
    proof
      fix c' assume "c' \<in> set VALID_CATEGORIES"
      with all_le have "kw_score text c' \<le> kw_score text c" by blast
      with False kw_score_nonneg [of "text" c'] show "kw_score text c' = 0" by simp
    qed
    show ?thesis
    proof (intro exI [of _ "''Political Catastrophe''"] conjI)
      show "guess_category text = Inr ''Political Catastrophe''" by (rule g0)
      show "''Political Catastrophe'' \<in> set VALID_CATEGORIES" by (rule default_valid)
      show "if \<forall>c' \<in> set VALID_CATEGORIES. kw_score text c' = 0
        then ''Political Catastrophe'' = ''Political Catastrophe''
        else \<exists>pre post. VALID_CATEGORIES = pre @ ''Political Catastrophe'' # post
          \<and> (\<forall>c' \<in> set pre. kw_score text c' < kw_score text ''Political Catastrophe'')
          \<and> (\<forall>c' \<in> set post. kw_score text c' \<le> kw_score text ''Political Catastrophe'')"
        by (subst if_P [OF z]) (rule refl)
    qed
  qed
qed

theorem guess_category_spec_witness:
  "guess_category ''The debt and the crash of a bank in a world war'' = Inr ''Economic Collapse''
   \<and> kw_score ''The debt and the crash of a bank in a world war'' ''Economic Collapse'' = 3
   \<and> kw_score ''The debt and the crash of a bank in a world war'' ''War & Conflict'' = 1
   \<and> guess_category [] = Inr ''Political Catastrophe''"
proof -
  have a: "guess_category ''The debt and the crash of a bank in a world war'' = Inr ''Economic Collapse''"
    by code_simp
  have b: "kw_score ''The debt and the crash of a bank in a world war'' ''Economic Collapse'' = 3"
    by code_simp
  have c: "kw_score ''The debt and the crash of a bank in a world war'' ''War & Conflict'' = 1"
    by code_simp
  have d: "guess_category [] = Inr ''Political Catastrophe''"
    by code_simp
  from guess_category_spec [of "[]"] a b c d show ?thesis by simp
qed

section \<open>Properties of the Row Classifier\<close>

definition category_of :: "string \<Rightarrow> string" where
  "category_of t = (case guess_category t of Inr c \<Rightarrow> c | Inl e \<Rightarrow> [])"

lemma guess_category_total: "guess_category t = Inr (category_of t)"
  using guess_category_cases [of t] by (auto simp: category_of_def)

lemma category_of_valid: "category_of t \<in> set VALID_CATEGORIES"
proof -
  from guess_category_cases [of t] obtain c pre post where
    dec: "VALID_CATEGORIES = pre @ c # post" and
    g: "guess_category t = Inr (if kw_score t c > 0 then c else ''Political Catastrophe'')"
    by blast
  have "c \<in> set VALID_CATEGORIES" by (subst dec) simp
  with g default_valid show ?thesis by (simp add: category_of_def)
qed


lemma search_year_token: "search_year prev s = Some g \<Longrightarrow> is_year_token g"
  by (induction s arbitrary: prev) (auto split: if_splits)


lemma year_token_value:
  "is_year_token g \<Longrightarrow> \<exists>y. py_int g = Inr y \<and> 1000 \<le> y \<and> y \<le> 2029"
  apply (auto simp: is_year_token_def py_int_def is_09_def isdecimal_def code_def split: list.splits)
  done

lemma py_int_year: "search_year prev s = Some g \<Longrightarrow> \<exists>y. py_int g = Inr y \<and> 1000 \<le> y \<and> y \<le> 2029"
  by (rule year_token_value) (rule search_year_token)

lemma row_to_entry_never_raises: "\<exists>r. row_to_entry row hint ids = Inr r"
proof (cases "length row < 3")
  case True
  then show ?thesis by (simp add: row_to_entry_def)
next
  case False
  then have len: "3 \<le> length (map clean row)" by simp
  from False have ne: "row \<noteq> []" by auto
  show ?thesis
  proof (cases "search_year None (map clean row ! 0)")
    case None
    with len ne show ?thesis
      by (simp add: row_to_entry_def and_then_def index_def Let_def del: nth_map)
  next
    case (Some g)
    then obtain y where y: "py_int g = Inr y" using py_int_year by blast
    from len ne Some y show ?thesis
      by (simp add: row_to_entry_def and_then_def index_def Let_def guess_category_total
          del: nth_map)
  qed
qed

definition shape_of :: "string list \<Rightarrow> string \<times> string \<times> string" where
  "shape_of cells = (if length cells \<ge> 4 then (cells ! 1, cells ! 2, cells ! 3)
     else (cells ! 1, cells ! 1, cells ! 2))"

definition reality_of :: "string \<Rightarrow> int \<Rightarrow> string" where
  "reality_of outcome y =
     (if length outcome > 20 \<and> lower outcome \<notin> set LOW_INFORMATION then outcome
      else ''The predicted event did not occur as described by ''
           @ str_int (if y < 2020 then y + 5 else 2025) @ ''.'')"

definition make_entry :: "string \<times> string \<times> string \<Rightarrow> int \<Rightarrow> string \<Rightarrow> string fset \<Rightarrow> entry" where
  "make_entry sh y hint ids =
     (case sh of (cl, pr, out) \<Rightarrow>
        \<lparr>id' = collision_loop (slugify (cl @ ''-'' @ take 20 pr) y) ids
                  (slugify (cl @ ''-'' @ take 20 pr) y) 1,
          year = y, prediction = pr,
          source = (if cl \<noteq> [] \<and> cl \<noteq> pr then cl else ''Unknown''),
          reality = reality_of out y,
          category = category_of (pr @ '' '' @ out @ '' '' @ hint),
          tags = [], harvested = True\<rparr>)"

lemma index_in_range: "i < length xs \<Longrightarrow> index xs i = Inr (xs ! i)"
  by (simp add: index_def)

lemma row_to_entry_after_year:
  assumes len: "3 \<le> length row"
    and hdr: "\<not> list_ex (\<lambda>h. contains h (lower (clean (row ! 0)))) HEADER_WORDS"
    and ne0: "clean (row ! 0) \<noteq> []"
    and g: "search_year None (clean (row ! 0)) = Some g"
    and y: "py_int g = Inr y"
    and past: "y < 2026"
  shows "row_to_entry row hint ids =
    (if length (fst (snd (shape_of (map clean row)))) < 15 then Inr None
     else Inr (Some (make_entry (shape_of (map clean row)) y hint ids)))"
proof -
  from len have ne: "row \<noteq> []" by auto
  have c0: "map clean row ! 0 = clean (row ! 0)" using ne by simp
  have l3: "\<not> length row < 3" using len by simp
  show ?thesis
  proof (cases "4 \<le> length row")
    case True
    then have sh: "shape_of (map clean row) = (map clean row ! 1, map clean row ! 2, map clean row ! 3)"
      by (simp add: shape_of_def)
    show ?thesis
      unfolding row_to_entry_def Let_def sh make_entry_def reality_of_def
      using True l3 hdr ne0 g y past ne
      by (simp add: index_in_range c0 and_then_def guess_category_total del: nth_map)
  next
    case False
    with len have l: "length row = 3" by simp
    then have sh: "shape_of (map clean row) = (map clean row ! 1, map clean row ! 1, map clean row ! 2)"
      by (simp add: shape_of_def)
    show ?thesis
      unfolding row_to_entry_def Let_def sh make_entry_def reality_of_def
      using l hdr ne0 g y past ne
      by (simp add: index_in_range c0 and_then_def guess_category_total del: nth_map)
  qed
qed

lemma row_to_entry_short: "length row < 3 \<Longrightarrow> row_to_entry row hint ids = Inr None"
  by (simp add: row_to_entry_def)

lemma row_to_entry_header:
  assumes "3 \<le> length row"
    and "list_ex (\<lambda>h. contains h (lower (clean (row ! 0)))) HEADER_WORDS"
  shows "row_to_entry row hint ids = Inr None"
proof -
  from assms(1) have ne: "row \<noteq> []" by auto
  have c0: "map clean row ! 0 = clean (row ! 0)" using ne by simp
  show ?thesis
    unfolding row_to_entry_def Let_def using assms ne
    by (simp add: index_in_range c0 and_then_def del: nth_map)
qed

lemma row_to_entry_empty_first:
  assumes "3 \<le> length row" and "clean (row ! 0) = []"
  shows "row_to_entry row hint ids = Inr None"
proof -
  from assms(1) have ne: "row \<noteq> []" by auto
  have c0: "map clean row ! 0 = clean (row ! 0)" using ne by simp
  show ?thesis
    unfolding row_to_entry_def Let_def using assms ne
    by (simp add: index_in_range c0 and_then_def del: nth_map)
qed

lemma row_to_entry_no_year:
  assumes "3 \<le> length row" and "search_year None (clean (row ! 0)) = None"
  shows "row_to_entry row hint ids = Inr None"
proof -
  from assms(1) have ne: "row \<noteq> []" by auto
  have c0: "map clean row ! 0 = clean (row ! 0)" using ne by simp
  show ?thesis
    unfolding row_to_entry_def Let_def using assms ne
    by (simp add: index_in_range c0 and_then_def del: nth_map)
qed

lemma row_to_entry_future:
  assumes "3 \<le> length row" and "search_year None (clean (row ! 0)) = Some g"
    and "py_int g = Inr y" and "2026 \<le> y"
  shows "row_to_entry row hint ids = Inr None"
proof -
  from assms(1) have ne: "row \<noteq> []" by auto
  have c0: "map clean row ! 0 = clean (row ! 0)" using ne by simp
  show ?thesis
    unfolding row_to_entry_def Let_def using assms ne
    by (simp add: index_in_range c0 and_then_def del: nth_map)
qed

lemma row_to_entry_Some:
  assumes acc: "row_to_entry row hint ids = Inr (Some e)"
  shows "\<exists>g y. 3 \<le> length row
    \<and> \<not> list_ex (\<lambda>h. contains h (lower (clean (row ! 0)))) HEADER_WORDS
    \<and> clean (row ! 0) \<noteq> []
    \<and> search_year None (clean (row ! 0)) = Some g \<and> py_int g = Inr y \<and> y < 2026
    \<and> 15 \<le> length (fst (snd (shape_of (map clean row))))
    \<and> e = make_entry (shape_of (map clean row)) y hint ids"
proof -
  have len: "3 \<le> length row"
    using acc row_to_entry_short [of row hint ids] by (cases "length row < 3") simp_all
  have hdr: "\<not> list_ex (\<lambda>h. contains h (lower (clean (row ! 0)))) HEADER_WORDS"
    using acc row_to_entry_header [OF len, of hint ids] by auto
  have ne0: "clean (row ! 0) \<noteq> []"
    using acc row_to_entry_empty_first [OF len, of hint ids] by auto
  obtain g where g: "search_year None (clean (row ! 0)) = Some g"
    using acc row_to_entry_no_year [OF len, of hint ids]
    by (cases "search_year None (clean (row ! 0))") simp_all
  obtain y where y: "py_int g = Inr y" using py_int_year [OF g] by blast
  have past: "y < 2026"
    using acc row_to_entry_future [OF len g y, of hint ids] by (cases "y < 2026") simp_all
  from acc row_to_entry_after_year [OF len hdr ne0 g y past, of hint ids]
  have "15 \<le> length (fst (snd (shape_of (map clean row))))
      \<and> e = make_entry (shape_of (map clean row)) y hint ids"
    by (simp split: if_splits)
  with len hdr ne0 g y past show ?thesis by blast
qed

lemma collision_loop_free: "b |\<notin>| ids \<Longrightarrow> collision_loop b ids b c = b"
  by (subst collision_loop.simps) simp

lemma make_entry_year: "year (make_entry sh y hint ids) = y"
  by (cases sh) (simp add: make_entry_def)

lemma make_entry_reality: "reality (make_entry sh y hint ids) = reality_of (snd (snd sh)) y"
  by (cases sh) (simp add: make_entry_def)

lemma ravi_batra_row:
  "row_to_entry [''1999'', ''Ravi Batra'', ''The US economy will collapse by 2000 due to debt'',
       ''It did not happen''] hint {||}
   = Inr (Some \<lparr>id' = ''1999-ravi-batra-the-us-economy-will'', year = 1999,
       prediction = ''The US economy will collapse by 2000 due to debt'',
       source = ''Ravi Batra'',
       reality = ''The predicted event did not occur as described by 2004.'',
       category = category_of (''The US economy will collapse by 2000 due to debt''
         @ '' '' @ ''It did not happen'' @ '' '' @ hint),
       tags = [], harvested = True\<rparr>)"
proof -
  let ?row = "[''1999'', ''Ravi Batra'', ''The US economy will collapse by 2000 due to debt'',
       ''It did not happen'']"
  have len: "3 \<le> length ?row" by simp
  have hdr: "\<not> list_ex (\<lambda>h. contains h (lower (clean (?row ! 0)))) HEADER_WORDS"
    by code_simp
  have ne0: "clean (?row ! 0) \<noteq> []" by code_simp
  have g: "search_year None (clean (?row ! 0)) = Some ''1999''" by code_simp
  have y: "py_int ''1999'' = Inr 1999" by code_simp
  have past: "(1999 :: int) < 2026" by simp
  have sh: "shape_of (map clean ?row) = (''Ravi Batra'',
      ''The US economy will collapse by 2000 due to debt'', ''It did not happen'')"
    by code_simp
  have slug: "slugify (''Ravi Batra'' @ ''-''
      @ take 20 ''The US economy will collapse by 2000 due to debt'') 1999
      = ''1999-ravi-batra-the-us-economy-will''"
    by code_simp
  have re: "reality_of ''It did not happen'' 1999
      = ''The predicted event did not occur as described by 2004.''"
    by code_simp
  show ?thesis
    unfolding row_to_entry_after_year [OF len hdr ne0 g y past] sh make_entry_def
    by (simp only: slug re collision_loop_free [of _ "{||}"] prod.case fst_conv snd_conv)
      (simp add: collision_loop_free)
qed

lemma example_bob:
  "row_to_entry [''1999'', ''Bob'', ''the sky will fall'', ''no''] [] {||}
   = Inr (Some \<lparr>id' = ''1999-bob-the-sky-will-fall'', year = 1999,
       prediction = ''the sky will fall'', source = ''Bob'',
       reality = ''The predicted event did not occur as described by 2004.'',
       category = ''Political Catastrophe'', tags = [], harvested = True\<rparr>)"
  by code_simp

lemma example_fire:
  "row_to_entry [''c. 2021[1]'', ''world ends in fire'', ''Nothing of the kind took place.''] []
     {||}
   = Inr (Some \<lparr>id' = ''2021-world-ends-in-fire-world-ends-in-fire'', year = 2021,
       prediction = ''world ends in fire'', source = ''Unknown'',
       reality = ''Nothing of the kind took place.'',
       category = ''Political Catastrophe'', tags = [], harvested = True\<rparr>)"
  by code_simp

text \<open>
  Claim C9. For every row (any list of strings, the empty one included), every hint and
  every set of known ids, \<open>row_to_entry\<close> returns a record or the rejection value and
  raises nothing: no cell access is out of range, the year conversion gets digits only,
  the category lookup finds its key, and the collision loop ends (\<open>collision_loop\<close> is
  a total function).
\<close>

theorem row_to_entry_total: "\<exists>r. row_to_entry row hint ids = Inr r"
  by (rule row_to_entry_never_raises)

theorem row_to_entry_total_witness:
  "row_to_entry [] [] {||} = Inr None
   \<and> row_to_entry [''Year'', ''Prediction'', ''Outcome''] [] {||} = Inr None"
proof -
  have a: "row_to_entry [] [] {||} = Inr None" by (simp add: row_to_entry_short)
  have b: "row_to_entry [''Year'', ''Prediction'', ''Outcome''] [] {||} = Inr None"
    by code_simp
  from row_to_entry_total [of "[]" "[]" "{||}"] a b show ?thesis by simp
qed



text \<open>
  Claim C8. The reality of an accepted record is the cleaned outcome cell (the fourth cell
  of a row of four or more cells, the third of a row of three) when it is longer than 20
  characters and its lower-case form is no low-information token; otherwise it is the
  synthesized sentence, naming year + 5 for a year before 2020 and 2025 from 2020 on.
\<close>

theorem accepted_reality:
  assumes "row_to_entry row hint ids = Inr (Some e)"
  shows "reality e =
    (let outcome = clean (if length row \<ge> 4 then row ! 3 else row ! 2)
     in if length outcome > 20 \<and> lower outcome \<notin> set LOW_INFORMATION then outcome
        else ''The predicted event did not occur as described by ''
             @ str_int (if year e < 2020 then year e + 5 else 2025) @ ''.'')"
proof -
  from row_to_entry_Some [OF assms] obtain y where
    len: "3 \<le> length row" and e: "e = make_entry (shape_of (map clean row)) y hint ids"
    by blast
  have out: "snd (snd (shape_of (map clean row)))
      = clean (if length row \<ge> 4 then row ! 3 else row ! 2)"
    using len by (simp add: shape_of_def)
  show ?thesis
    by (simp add: e make_entry_year make_entry_reality out reality_of_def Let_def
        del: nth_map)
qed

theorem accepted_reality_witness:
  "reality \<lparr>id' = ''1999-bob-the-sky-will-fall'', year = 1999,
       prediction = ''the sky will fall'', source = ''Bob'',
       reality = ''The predicted event did not occur as described by 2004.'',
       category = ''Political Catastrophe'', tags = [], harvested = True\<rparr>
     = ''The predicted event did not occur as described by '' @ str_int (1999 + 5) @ ''.''
   \<and> reality \<lparr>id' = ''2021-world-ends-in-fire-world-ends-in-fire'', year = 2021,
       prediction = ''world ends in fire'', source = ''Unknown'',
       reality = ''Nothing of the kind took place.'',
       category = ''Political Catastrophe'', tags = [], harvested = True\<rparr>
     = clean ''Nothing of the kind took place.''"
proof -
  have a: "clean ''no'' = ''no''" by code_simp
  have b: "clean ''Nothing of the kind took place.'' = ''Nothing of the kind took place.''"
    by code_simp
  have c: "lower ''Nothing of the kind took place.'' \<notin> set LOW_INFORMATION" by code_simp
  from accepted_reality [OF example_bob] accepted_reality [OF example_fire] a b c
  show ?thesis by (simp add: Let_def)
qed

text \<open>
  Claim C1, as the code has it. For the row of the scenario, any hint and no known ids,
  \<open>row_to_entry\<close> accepts: year 1999, source "Ravi Batra", the prediction as given, the
  category the Category Guesser returns. The outcome "It did not happen" has 17
  characters, not more than 20, so the reality is the synthesized sentence naming 2004.
\<close>

theorem scenario_ravi_batra:
  "\<exists>cat. guess_category (''The US economy will collapse by 2000 due to debt''
         @ '' '' @ ''It did not happen'' @ '' '' @ hint) = Inr cat
     \<and> row_to_entry [''1999'', ''Ravi Batra'',
          ''The US economy will collapse by 2000 due to debt'', ''It did not happen''] hint {||}
       = Inr (Some \<lparr>id' = ''1999-ravi-batra-the-us-economy-will'', year = 1999,
           prediction = ''The US economy will collapse by 2000 due to debt'',
           source = ''Ravi Batra'',
           reality = ''The predicted event did not occur as described by 2004.'',
           category = cat, tags = [], harvested = True\<rparr>)"
  using ravi_batra_row [of hint] guess_category_total by blast

theorem scenario_ravi_batra_witness:
  "\<exists>cat. guess_category (''The US economy will collapse by 2000 due to debt''
         @ '' '' @ ''It did not happen'' @ '' '' @ ''doomsday'') = Inr cat
     \<and> row_to_entry [''1999'', ''Ravi Batra'',
          ''The US economy will collapse by 2000 due to debt'', ''It did not happen'']
          ''doomsday'' {||}
       = Inr (Some \<lparr>id' = ''1999-ravi-batra-the-us-economy-will'', year = 1999,
           prediction = ''The US economy will collapse by 2000 due to debt'',
           source = ''Ravi Batra'',
           reality = ''The predicted event did not occur as described by 2004.'',
           category = cat, tags = [], harvested = True\<rparr>)"
  by (rule scenario_ravi_batra)

text \<open>
  The reality of the scenario's record is not the outcome text "It did not happen".
\<close>

theorem scenario_ravi_batra_reality_differs:
  "row_to_entry [''1999'', ''Ravi Batra'',
       ''The US economy will collapse by 2000 due to debt'', ''It did not happen''] [] {||}
     = Inr (Some \<lparr>id' = ''1999-ravi-batra-the-us-economy-will'', year = 1999,
         prediction = ''The US economy will collapse by 2000 due to debt'',
         source = ''Ravi Batra'',
         reality = ''The predicted event did not occur as described by 2004.'',
         category = ''Economic Collapse'', tags = [], harvested = True\<rparr>)
   \<and> ''The predicted event did not occur as described by 2004.'' \<noteq> ''It did not happen''
   \<and> length ''It did not happen'' = 17"
proof -
  have c: "category_of ''The US economy will collapse by 2000 due to debt It did not happen ''
      = ''Economic Collapse''"
    by code_simp
  show ?thesis using ravi_batra_row [of "[]"] by (simp add: c)
qed

section \<open>Uniqueness of identifiers in a run\<close>

lemma collision_loop_suffix:
  "entry_id |\<in>| ids \<Longrightarrow>
   \<exists>k \<ge> counter. collision_loop b ids entry_id counter = suffixed b k
     \<and> suffixed b k |\<notin>| ids \<and> (\<forall>j. counter \<le> j \<and> j < k \<longrightarrow> suffixed b j |\<in>| ids)"
proof (induction b ids entry_id counter rule: collision_loop.induct)
  case (1 base_id existing_ids entry_id counter)
  show ?case
  proof (cases "suffixed base_id counter |\<in>| existing_ids")
    case True
    from "1.IH" [OF "1.prems" True] obtain k where
      k: "counter + 1 \<le> k"
      "collision_loop base_id existing_ids (suffixed base_id counter) (counter + 1)
         = suffixed base_id k"
      "suffixed base_id k |\<notin>| existing_ids"
      "\<forall>j. counter + 1 \<le> j \<and> j < k \<longrightarrow> suffixed base_id j |\<in>| existing_ids"
      by blast
    have all: "\<forall>j. counter \<le> j \<and> j < k \<longrightarrow> suffixed base_id j |\<in>| existing_ids"
    proof (intro allI impI)
      fix j assume j: "counter \<le> j \<and> j < k"
      show "suffixed base_id j |\<in>| existing_ids"
      proof (cases "j = counter")
        case True
        with \<open>suffixed base_id counter |\<in>| existing_ids\<close> show ?thesis by simp
      next
        case False
        with j have "counter + 1 \<le> j \<and> j < k" by simp
        with k(4) show ?thesis by blast
      qed
    qed
    have "collision_loop base_id existing_ids entry_id counter = suffixed base_id k"
      using "1.prems" k(2) by (subst collision_loop.simps) simp
    moreover have "counter \<le> k" using k(1) by simp
    ultimately show ?thesis using k(3) all by blast
  next
    case False
    have "collision_loop base_id existing_ids entry_id counter = suffixed base_id counter"
      using "1.prems" False
      by (subst collision_loop.simps, simp, subst collision_loop.simps, simp)
    with False show ?thesis by auto
  qed
qed

lemma collision_loop_fresh: "collision_loop b ids e c |\<notin>| ids"
proof (cases "e |\<in>| ids")
  case True
  from collision_loop_suffix [OF True, of c b] show ?thesis by auto
next
  case False
  then show ?thesis by (subst collision_loop.simps) simp
qed

lemma make_entry_id:
  "id' (make_entry (cl, pr, out) y hint ids)
   = collision_loop (slugify (cl @ ''-'' @ take 20 pr) y) ids (slugify (cl @ ''-'' @ take 20 pr) y) 1"
  by (simp add: make_entry_def)

lemma row_to_entry_fresh:
  assumes "row_to_entry row hint ids = Inr (Some e)"
  shows "id' e |\<notin>| ids"
proof -
  from row_to_entry_Some [OF assms] obtain y where
    e: "e = make_entry (shape_of (map clean row)) y hint ids" by blast
  obtain cl pr out where "shape_of (map clean row) = (cl, pr, out)"
    by (cases "shape_of (map clean row)")
  with e show ?thesis by (simp add: make_entry_id collision_loop_fresh)
qed

definition ids_ok :: "string fset \<Rightarrow> run_state \<Rightarrow> bool" where
  "ids_ok ids0 st = (distinct (map id' (new_entries st))
     \<and> fset_of_list (map id' (new_entries st)) |\<inter>| ids0 = {||}
     \<and> existing_ids st = ids0 |\<union>| fset_of_list (map id' (new_entries st)))"

lemma ids_ok_step:
  assumes ok: "ids_ok ids0 st"
    and acc: "row_to_entry row hint
        (existing_ids st |\<union>| fset_of_list (map id' (new_entries st))) = Inr (Some e)"
  shows "ids_ok ids0 (st\<lparr>new_entries := new_entries st @ [e],
      existing_ids := finsert (id' e) (existing_ids st)\<rparr>)"
proof -
  from row_to_entry_fresh [OF acc]
  have fresh: "id' e |\<notin>| existing_ids st |\<union>| fset_of_list (map id' (new_entries st))" .
  then have f1: "id' e |\<notin>| ids0" and f2: "id' e \<notin> set (map id' (new_entries st))"
    using ok by (auto simp: ids_ok_def fset_of_list.rep_eq)
  from ok f1 f2 show ?thesis
    by (auto simp: ids_ok_def)
qed

lemma rows_loop_ok:
  "ids_ok ids0 st \<Longrightarrow> \<exists>st'. rows_loop limit hint rows st = Inr st' \<and> ids_ok ids0 st'"
proof (induction rows arbitrary: st)
  case Nil
  then show ?case by simp
next
  case (Cons row rows)
  let ?known = "existing_ids st |\<union>| fset_of_list (map id' (new_entries st))"
  from row_to_entry_never_raises [of row hint ?known]
  obtain r where r: "row_to_entry row hint ?known = Inr r" by blast
  show ?case
  proof (cases r)
    case None
    with r Cons show ?thesis by simp
  next
    case (Some e)
    let ?st = "st\<lparr>new_entries := new_entries st @ [e],
      existing_ids := finsert (id' e) (existing_ids st)\<rparr>"
    have ok: "ids_ok ids0 ?st" using Cons.prems r Some by (simp add: ids_ok_step)
    show ?thesis
    proof (cases "limit_reached limit ?st")
      case True
      with r Some ok show ?thesis by (simp add: Let_def)
    next
      case False
      with r Some Cons.IH [OF ok] show ?thesis by (simp add: Let_def)
    qed
  qed
qed

lemma tables_loop_ok:
  "ids_ok ids0 st \<Longrightarrow> \<exists>st'. tables_loop limit hint tabs st = Inr st' \<and> ids_ok ids0 st'"
proof (induction tabs arbitrary: st)
  case Nil
  then show ?case by simp
next
  case (Cons t tabs)
  from rows_loop_ok [OF Cons.prems, of limit hint t]
  obtain st1 where st1: "rows_loop limit hint t st = Inr st1" "ids_ok ids0 st1" by blast
  show ?case
  proof (cases "limit_reached limit st1")
    case True
    with st1 show ?thesis by simp
  next
    case False
    with st1 Cons.IH [OF st1(2)] show ?thesis by simp
  qed
qed

lemma targets_loop_ok:
  "ids_ok ids0 st \<Longrightarrow> \<exists>st'. targets_loop limit targets st = Inr st' \<and> ids_ok ids0 st'"
proof (induction targets arbitrary: st)
  case Nil
  then show ?case by simp
next
  case (Cons tg targets)
  obtain title hint fetched where tg: "tg = (title, hint, fetched)" by (cases tg)
  show ?case
  proof (cases fetched)
    case None
    with tg Cons show ?thesis by simp
  next
    case (Some tabs)
    from tables_loop_ok [OF Cons.prems, of limit "hint @ '' '' @ title" tabs]
    obtain st1 where st1: "tables_loop limit (hint @ '' '' @ title) tabs st = Inr st1"
      "ids_ok ids0 st1" by blast
    show ?thesis
    proof (cases "limit_reached limit st1")
      case True
      with tg Some st1 show ?thesis by simp
    next
      case False
      with tg Some st1 Cons.IH [OF st1(2)] show ?thesis by simp
    qed
  qed
qed

text \<open>
  Claim C4. Every run of the classification loop ends without an exception, and at its
  end the ids of the accepted records are pairwise distinct, none of them is an id of the
  pre-existing store, and the set of known ids is the store's ids together with the
  accepted ones (it is updated after each accepted record, before the next row).
\<close>

theorem harvest_ids_distinct:
  "\<exists>st. main_loop limit targets ids0 = Inr st
     \<and> distinct (map id' (new_entries st))
     \<and> fset_of_list (map id' (new_entries st)) |\<inter>| ids0 = {||}
     \<and> existing_ids st = ids0 |\<union>| fset_of_list (map id' (new_entries st))"
proof -
  have "ids_ok ids0 \<lparr>new_entries = [], existing_ids = ids0\<rparr>"
    by (simp add: ids_ok_def)
  from targets_loop_ok [OF this, of limit targets] show ?thesis
    by (simp add: main_loop_def ids_ok_def)
qed

lemma example_run:
  "(case main_loop 0 [(''T'', ''h'', Some [[[''1999'', ''Bob'', ''the sky will fall'', ''no''],
        [''1999'', ''Bob'', ''the sky will fall'', ''no'']]])] {|''1999-bob-the-sky-will-fall''|}
    of Inr st \<Rightarrow> map id' (new_entries st) | Inl e \<Rightarrow> [])
   = [''1999-bob-the-sky-will-fall-1'', ''1999-bob-the-sky-will-fall-2'']"
  by code_simp

theorem harvest_ids_distinct_witness:
  "(case main_loop 0 [(''T'', ''h'', Some [[[''1999'', ''Bob'', ''the sky will fall'', ''no''],
        [''1999'', ''Bob'', ''the sky will fall'', ''no'']]])] {|''1999-bob-the-sky-will-fall''|}
    of Inr st \<Rightarrow> map id' (new_entries st) | Inl e \<Rightarrow> [])
   = [''1999-bob-the-sky-will-fall-1'', ''1999-bob-the-sky-will-fall-2'']
   \<and> distinct [''1999-bob-the-sky-will-fall-1'', ''1999-bob-the-sky-will-fall-2'']"
  using harvest_ids_distinct [of 0 "[(''T'', ''h'', Some [[[''1999'', ''Bob'',
      ''the sky will fall'', ''no''], [''1999'', ''Bob'', ''the sky will fall'', ''no'']]])]"
      "{|''1999-bob-the-sky-will-fall''|}"] example_run
  by simp


section \<open>Properties of the Identifier Generator\<close>

function az09_runs :: "string \<Rightarrow> string list" where
  "az09_runs [] = []"
| "az09_runs (c # cs) =
     (if is_az09 c then takeWhile is_az09 (c # cs) # az09_runs (dropWhile is_az09 cs)
      else az09_runs cs)"
  by pat_completeness auto
termination
  by (relation "measure length") (auto simp: less_Suc_eq_le length_dropWhile_le)

definition is_hyphen :: "char \<Rightarrow> bool" where
  "is_hyphen c = (c = CHR ''-'')"

definition rstrip_hyphen :: "string \<Rightarrow> string" where
  "rstrip_hyphen s = rev (dropWhile is_hyphen (rev s))"

lemma hyphen_not_az09: "is_hyphen c \<Longrightarrow> \<not> is_az09 c"
  by (simp add: is_hyphen_def is_az09_def islower_az_def code_def)

lemma strip_by_rstrip: "strip_by is_hyphen s = rstrip_hyphen (dropWhile is_hyphen s)"
  by (simp add: strip_by_def rstrip_hyphen_def)

lemma rstrip_append:
  "rstrip_hyphen (a @ b) = (if \<forall>c \<in> set b. is_hyphen c then rstrip_hyphen a else a @ rstrip_hyphen b)"
  by (simp add: rstrip_hyphen_def dropWhile_append)

lemma rstrip_keep: "s \<noteq> [] \<Longrightarrow> \<not> is_hyphen (last s) \<Longrightarrow> rstrip_hyphen s = s"
  by (cases s rule: rev_cases) (simp_all add: rstrip_hyphen_def)

lemma rstrip_all: "\<forall>c \<in> set s. is_hyphen c \<Longrightarrow> rstrip_hyphen s = []"
  by (simp add: rstrip_hyphen_def)

lemma sub_az09_prefix: "\<forall>c \<in> set w. is_az09 c \<Longrightarrow> sub_non_az09 (w @ r) = w @ sub_non_az09 r"
  by (induction w) simp_all

lemma runs_skip: "az09_runs (dropWhile (\<lambda>x. \<not> is_az09 x) s) = az09_runs s"
  by (induction s) simp_all

lemma runs_nonempty: "is_az09 c \<Longrightarrow> az09_runs (c # cs) \<noteq> []"
  by simp

lemma sub_good_start:
  "is_az09 c \<Longrightarrow> sub_non_az09 (c # cs) = c # sub_non_az09 cs"
  by simp

lemma lstrip_sub_good:
  "s = [] \<or> is_az09 (hd s) \<Longrightarrow> dropWhile is_hyphen (sub_non_az09 s) = sub_non_az09 s"
  by (cases s) (auto dest: hyphen_not_az09)

lemma strip_sub_skip:
  "strip_by is_hyphen (sub_non_az09 (dropWhile (\<lambda>x. \<not> is_az09 x) s))
   = strip_by is_hyphen (sub_non_az09 s)"
proof (cases s)
  case Nil
  then show ?thesis by simp
next
  case (Cons d ds)
  show ?thesis
  proof (cases "is_az09 d")
    case True
    with Cons show ?thesis by simp
  next
    case False
    with Cons show ?thesis by (simp add: strip_by_def is_hyphen_def)
  qed
qed

lemma dropWhile_start: "dropWhile P s = [] \<or> \<not> P (hd (dropWhile P s))"
  by (induction s) auto

text \<open>What follows a run: nothing but separators, or a hyphen and the later runs.\<close>

lemma after_run:
  assumes start: "r = [] \<or> \<not> is_az09 (hd r)"
    and ih: "strip_by is_hyphen (sub_non_az09 r) = join ''-'' (az09_runs r)"
  shows "if \<forall>c \<in> set (sub_non_az09 r). is_hyphen c then az09_runs r = []
         else az09_runs r \<noteq> []
           \<and> rstrip_hyphen (sub_non_az09 r) = CHR ''-'' # join ''-'' (az09_runs r)"
proof (cases r)
  case Nil
  then show ?thesis by simp
next
  case (Cons d ds)
  with start have d: "\<not> is_az09 d" by simp
  define r' where "r' = dropWhile (\<lambda>x. \<not> is_az09 x) ds"
  have sub: "sub_non_az09 r = CHR ''-'' # sub_non_az09 r'"
    using Cons d by (simp add: r'_def)
  have runs: "az09_runs r = az09_runs r'"
    using Cons d by (simp add: r'_def runs_skip)
  have st: "r' = [] \<or> is_az09 (hd r')"
    using dropWhile_start [of "\<lambda>x. \<not> is_az09 x" ds] by (simp add: r'_def)
  have dw: "dropWhile is_hyphen (CHR ''-'' # sub_non_az09 r') = dropWhile is_hyphen (sub_non_az09 r')"
    by (simp add: is_hyphen_def)
  have "strip_by is_hyphen (sub_non_az09 r) = rstrip_hyphen (sub_non_az09 r')"
    by (simp only: sub strip_by_rstrip dw lstrip_sub_good [OF st])
  with ih runs have j: "rstrip_hyphen (sub_non_az09 r') = join ''-'' (az09_runs r')" by simp
  show ?thesis
  proof (cases r')
    case Nil
    then show ?thesis by (simp add: sub runs is_hyphen_def)
  next
    case (Cons e es)
    with st have e: "is_az09 e" by simp
    then have ne: "\<not> is_hyphen e" using hyphen_not_az09 by blast
    have nall: "\<not> (\<forall>c \<in> set (sub_non_az09 r'). is_hyphen c)"
      using Cons e ne by auto
    have "rstrip_hyphen (sub_non_az09 r) = CHR ''-'' # rstrip_hyphen (sub_non_az09 r')"
      using rstrip_append [of "''-''" "sub_non_az09 r'"] nall by (simp add: sub)
    moreover have "az09_runs r' \<noteq> []" using Cons e by simp
    ultimately show ?thesis using nall j runs sub by auto
  qed
qed

lemma join_cons: "xs \<noteq> [] \<Longrightarrow> join sep (x # xs) = x @ sep @ join sep xs"
  by (cases xs) simp_all

lemma slug_runs: "strip_by is_hyphen (sub_non_az09 s) = join ''-'' (az09_runs s)"
proof (induction s rule: az09_runs.induct)
  case 1
  show ?case by (simp add: strip_by_def)
next
  case (2 c cs)
  show ?case
  proof (cases "is_az09 c")
    case False
    have "strip_by is_hyphen (sub_non_az09 (c # cs))
        = strip_by is_hyphen (sub_non_az09 (dropWhile (\<lambda>x. \<not> is_az09 x) cs))"
      using False by (simp add: strip_by_def is_hyphen_def)
    also have "\<dots> = strip_by is_hyphen (sub_non_az09 cs)" by (rule strip_sub_skip)
    also have "\<dots> = join ''-'' (az09_runs cs)" using "2.IH"(2) [OF False] .
    finally show ?thesis using False by simp
  next
    case True
    define w where "w = takeWhile is_az09 (c # cs)"
    define r where "r = dropWhile is_az09 cs"
    have split: "c # cs = w @ r"
      using True takeWhile_dropWhile_id [of is_az09 "c # cs"] by (simp add: w_def r_def)
    have wP: "\<forall>x \<in> set w. is_az09 x" unfolding w_def by (auto dest: set_takeWhileD)
    have wne: "w \<noteq> []" and hdw: "hd w = c" using True by (simp_all add: w_def)
    have lastw: "\<not> is_hyphen (last w)"
      using wP wne hyphen_not_az09 last_in_set by blast
    have sub: "sub_non_az09 (c # cs) = w @ sub_non_az09 r"
      unfolding split by (rule sub_az09_prefix [OF wP])
    have runs: "az09_runs (c # cs) = w # az09_runs r"
      using True by (simp add: w_def r_def)
    have start: "r = [] \<or> \<not> is_az09 (hd r)"
      unfolding r_def by (rule dropWhile_start)
    have ih: "strip_by is_hyphen (sub_non_az09 r) = join ''-'' (az09_runs r)"
      using "2.IH"(1) [OF True] by (simp add: r_def)
    note ar = after_run [OF start ih]
    have "\<not> is_hyphen c" using True hyphen_not_az09 by blast
    then have l: "dropWhile is_hyphen (w @ sub_non_az09 r) = w @ sub_non_az09 r"
      using wne hdw by (cases w) simp_all
    have "strip_by is_hyphen (sub_non_az09 (c # cs)) = rstrip_hyphen (w @ sub_non_az09 r)"
      by (simp only: sub strip_by_rstrip l)
    also have "\<dots> = join ''-'' (w # az09_runs r)"
    proof (cases "\<forall>x \<in> set (sub_non_az09 r). is_hyphen x")
      case all: True
      with ar have "az09_runs r = []" by simp
      moreover have "rstrip_hyphen (w @ sub_non_az09 r) = w"
        by (subst rstrip_append, subst if_P [OF all], rule rstrip_keep [OF wne lastw])
      ultimately show ?thesis by simp
    next
      case nall: False
      with ar have ne: "az09_runs r \<noteq> []"
        and rs: "rstrip_hyphen (sub_non_az09 r) = CHR ''-'' # join ''-'' (az09_runs r)"
        by simp_all
      have "rstrip_hyphen (w @ sub_non_az09 r) = w @ rstrip_hyphen (sub_non_az09 r)"
        by (subst rstrip_append, subst if_not_P [OF nall], rule refl)
      with rs ne show ?thesis by (simp add: join_cons)
    qed
    finally show ?thesis by (simp only: runs)
  qed
qed

lemma is_hyphen_eq: "(\<lambda>c. c = CHR ''-'') = is_hyphen"
  by (rule ext) (simp add: is_hyphen_def)

text \<open>
  The Identifier Generator in the claim's words: the year and the first 40 characters of
  the basis text concatenated, in lower case, every run of characters outside
  \<open>[a-z0-9]\<close> replaced by one hyphen, leading and trailing hyphens trimmed.
\<close>

definition slug_as_worded :: "string \<Rightarrow> int \<Rightarrow> string" where
  "slug_as_worded text y =
     strip_by is_hyphen (sub_non_az09 (lower (str_int y @ take 40 text)))"

text \<open>
  Claim C7, as the code has it. \<open>slugify\<close> puts a hyphen between the year and the first
  40 characters of the basis text; the slug is the maximal runs of \<open>[a-z0-9]\<close> of that
  lower-cased string, joined by single hyphens. The collision loop returns an id that is
  not known: the slug itself when it is not known, otherwise the slug with the suffix
  \<open>-k\<close> for the least \<open>k \<ge> 1\<close> whose suffixed id is not known.
\<close>

theorem slugify_spec:
  "slugify text y = join ''-'' (az09_runs (lower (str_int y @ ''-'' @ take 40 text)))
   \<and> collision_loop (slugify text y) ids (slugify text y) 1 |\<notin>| ids
   \<and> (if slugify text y |\<notin>| ids
       then collision_loop (slugify text y) ids (slugify text y) 1 = slugify text y
       else \<exists>k \<ge> 1. collision_loop (slugify text y) ids (slugify text y) 1
             = slugify text y @ ''-'' @ str_nat k
           \<and> (\<forall>j. 1 \<le> j \<and> j < k \<longrightarrow> slugify text y @ ''-'' @ str_nat j |\<in>| ids))"
proof (intro conjI)
  show "slugify text y = join ''-'' (az09_runs (lower (str_int y @ ''-'' @ take 40 text)))"
    by (simp only: slugify_def Let_def is_hyphen_eq slug_runs)
  show "collision_loop (slugify text y) ids (slugify text y) 1 |\<notin>| ids"
    by (rule collision_loop_fresh)
  show "if slugify text y |\<notin>| ids
       then collision_loop (slugify text y) ids (slugify text y) 1 = slugify text y
       else \<exists>k \<ge> 1. collision_loop (slugify text y) ids (slugify text y) 1
             = slugify text y @ ''-'' @ str_nat k
           \<and> (\<forall>j. 1 \<le> j \<and> j < k \<longrightarrow> slugify text y @ ''-'' @ str_nat j |\<in>| ids)"
  proof (cases "slugify text y |\<in>| ids")
    case True
    from collision_loop_suffix [OF True, of 1 "slugify text y"]
    show ?thesis using True by (auto simp: suffixed_def)
  next
    case False
    then show ?thesis by (simp add: collision_loop_free)
  qed
qed

theorem slugify_spec_witness:
  "slugify ''Bob Ross: The END'' 1999 = ''1999-bob-ross-the-end''
   \<and> collision_loop ''1999-bob-ross-the-end''
        {|''1999-bob-ross-the-end'', ''1999-bob-ross-the-end-1''|} ''1999-bob-ross-the-end'' 1
      = ''1999-bob-ross-the-end-2''"
proof -
  have a: "slugify ''Bob Ross: The END'' 1999 = ''1999-bob-ross-the-end''" by code_simp
  have b: "collision_loop ''1999-bob-ross-the-end''
        {|''1999-bob-ross-the-end'', ''1999-bob-ross-the-end-1''|} ''1999-bob-ross-the-end'' 1
      = ''1999-bob-ross-the-end-2''" by code_simp
  from slugify_spec [of "''Bob Ross: The END''" 1999
      "{|''1999-bob-ross-the-end'', ''1999-bob-ross-the-end-1''|}"] a b
  show ?thesis by simp
qed

text \<open>
  The claim's wording leaves out the hyphen between the year and the text: for the basis
  "ravi" and the year 1999 it gives "1999ravi", the code "1999-ravi".
\<close>

theorem slugify_separator:
  "slugify ''ravi'' 1999 = ''1999-ravi'' \<and> slug_as_worded ''ravi'' 1999 = ''1999ravi''"
  by code_simp

section \<open>Properties of the Table Extractor\<close>

text \<open>
  Well-formed markup: a node is a piece of text or a table, a table is a list of rows, a
  row a list of cells (\<open>td\<close> or \<open>th\<close>), a cell a list of nodes. \<open>render\<close> gives the
  parser events of a node; \<open>texts\<close> its text fragments, stripped and without the blank
  ones, in document order; \<open>cell_text\<close> the text of a cell as the spec words it (the
  fragments joined by single spaces, trimmed); \<open>own_rows\<close> the rows of a table.
\<close>

datatype cell_kind = TD | TH

datatype node = Text string | Table "(cell_kind \<times> node list) list list"

fun cell_tag :: "cell_kind \<Rightarrow> string" where
  "cell_tag TD = ''td''"
| "cell_tag TH = ''th''"

fun render :: "node \<Rightarrow> event list" where
  "render (Text s) = [Data s]"
| "render (Table rows) =
     StartTag ''table''
     # concat (map (\<lambda>row. StartTag ''tr''
         # concat (map (\<lambda>cell. StartTag (cell_tag (fst cell))
             # concat (map render (snd cell)) @ [EndTag (cell_tag (fst cell))]) row)
         @ [EndTag ''tr'']) rows)
     @ [EndTag ''table'']"

fun texts :: "node \<Rightarrow> string list" where
  "texts (Text s) = (if strip s = [] then [] else [strip s])"
| "texts (Table rows) =
     concat (map (\<lambda>row. concat (map (\<lambda>cell. concat (map texts (snd cell))) row)) rows)"

definition cell_text :: "cell_kind \<times> node list \<Rightarrow> string" where
  "cell_text cell = strip (join '' '' (concat (map texts (snd cell))))"

definition own_rows :: "(cell_kind \<times> node list) list list \<Rightarrow> string list list" where
  "own_rows rows = map (map cell_text) rows"


lemma feed_append: "feed p (a @ b) = feed (feed p a) b"
  by (simp add: feed_def)

lemma feed_Cons: "feed p (e # evs) = feed (handle p e) evs"
  by (simp add: feed_def)

lemma feed_Nil: "feed p [] = p"
  by (simp add: feed_def)

lemma cell_tag_cases: "cell_tag k = ''td'' \<or> cell_tag k = ''th''"
  by (cases k) simp_all

lemma cell_tag_not: "cell_tag k \<noteq> ''table''" "cell_tag k \<noteq> ''tr''"
  by (cases k; simp)+

definition render_cell :: "cell_kind \<times> node list \<Rightarrow> event list" where
  "render_cell cell = StartTag (cell_tag (fst cell))
     # concat (map render (snd cell)) @ [EndTag (cell_tag (fst cell))]"

definition render_row :: "(cell_kind \<times> node list) list \<Rightarrow> event list" where
  "render_row row = StartTag ''tr'' # concat (map render_cell row) @ [EndTag ''tr'']"

definition cell_texts :: "cell_kind \<times> node list \<Rightarrow> string list" where
  "cell_texts cell = concat (map texts (snd cell))"

lemma render_Table:
  "render (Table rows) = StartTag ''table'' # concat (map render_row rows) @ [EndTag ''table'']"
  unfolding render_row_def [abs_def] render_cell_def [abs_def] by simp

lemma texts_Table: "texts (Table rows) = concat (map (\<lambda>row. concat (map cell_texts row)) rows)"
  unfolding cell_texts_def [abs_def] by simp

lemma handle_data_open:
  "current_cell p = Some c \<Longrightarrow>
   handle_data p d = (if strip d = [] then p else p\<lparr>current_cell := Some (c @ [strip d])\<rparr>)"
  by (simp add: handle_data_def Let_def)

lemma start_table_inside: "1 \<le> depth p \<Longrightarrow> handle_starttag p ''table'' = p\<lparr>depth := depth p + 1\<rparr>"
  by (simp add: handle_starttag_def Let_def)

lemma end_table_inside: "2 \<le> depth p \<Longrightarrow> handle_endtag p ''table'' = p\<lparr>depth := depth p - 1\<rparr>"
  by (simp add: handle_endtag_def Let_def split: option.split)

lemma start_other_inside: "2 \<le> depth p \<Longrightarrow> tag \<noteq> ''table'' \<Longrightarrow> handle_starttag p tag = p"
  by (simp add: handle_starttag_def)

lemma end_other_inside: "2 \<le> depth p \<Longrightarrow> tag \<noteq> ''table'' \<Longrightarrow> handle_endtag p tag = p"
  by (simp add: handle_endtag_def)

text \<open>A node is absorbed: fed while a cell is open inside a table, it only adds its text.\<close>

definition absorbed :: "node \<Rightarrow> bool" where
  "absorbed n = (\<forall>p c. 1 \<le> depth p \<and> current_cell p = Some c
     \<longrightarrow> feed p (render n) = p\<lparr>current_cell := Some (c @ texts n)\<rparr>)"

lemma absorbed_nodes:
  "\<forall>n \<in> set ns. absorbed n \<Longrightarrow> 1 \<le> depth p \<Longrightarrow> current_cell p = Some c \<Longrightarrow>
   feed p (concat (map render ns)) = p\<lparr>current_cell := Some (c @ concat (map texts ns))\<rparr>"
proof (induction ns arbitrary: p c)
  case Nil
  then show ?case by (simp add: feed_Nil)
next
  case (Cons n ns)
  from Cons.prems have a: "feed p (render n) = p\<lparr>current_cell := Some (c @ texts n)\<rparr>"
    by (simp add: absorbed_def)
  have "feed (p\<lparr>current_cell := Some (c @ texts n)\<rparr>) (concat (map render ns))
      = p\<lparr>current_cell := Some (c @ texts n)\<rparr>\<lparr>current_cell := Some ((c @ texts n) @ concat (map texts ns))\<rparr>"
    using Cons.prems by (intro Cons.IH) simp_all
  with a show ?case by (simp add: feed_append)
qed

lemma deep_cell:
  assumes "\<forall>n \<in> set (snd cell). absorbed n" "2 \<le> depth p" "current_cell p = Some c"
  shows "feed p (render_cell cell) = p\<lparr>current_cell := Some (c @ cell_texts cell)\<rparr>"
proof -
  have d1: "1 \<le> depth p" using assms(2) by simp
  have "feed p (render_cell cell)
      = handle_endtag (feed p (concat (map render (snd cell)))) (cell_tag (fst cell))"
    using assms(2) by (simp add: render_cell_def feed_Cons feed_append feed_Nil
        start_other_inside cell_tag_not)
  also have "\<dots> = handle_endtag (p\<lparr>current_cell := Some (c @ cell_texts cell)\<rparr>) (cell_tag (fst cell))"
    by (simp only: absorbed_nodes [OF assms(1) d1 assms(3)] cell_texts_def)
  also have "\<dots> = p\<lparr>current_cell := Some (c @ cell_texts cell)\<rparr>"
    using assms(2) by (simp add: end_other_inside cell_tag_not)
  finally show ?thesis .
qed

lemma deep_cells:
  "\<forall>cell \<in> set row. \<forall>n \<in> set (snd cell). absorbed n \<Longrightarrow> 2 \<le> depth p \<Longrightarrow>
   current_cell p = Some c \<Longrightarrow>
   feed p (concat (map render_cell row))
     = p\<lparr>current_cell := Some (c @ concat (map cell_texts row))\<rparr>"
proof (induction row arbitrary: p c)
  case Nil
  then show ?case by (simp add: feed_Nil)
next
  case (Cons cell row)
  have a: "feed p (render_cell cell) = p\<lparr>current_cell := Some (c @ cell_texts cell)\<rparr>"
    using Cons.prems by (intro deep_cell) simp_all
  have "feed (p\<lparr>current_cell := Some (c @ cell_texts cell)\<rparr>) (concat (map render_cell row))
      = p\<lparr>current_cell := Some (c @ cell_texts cell)\<rparr>
         \<lparr>current_cell := Some ((c @ cell_texts cell) @ concat (map cell_texts row))\<rparr>"
    using Cons.prems by (intro Cons.IH) simp_all
  with a show ?case by (simp add: feed_append)
qed

lemma deep_row:
  assumes "\<forall>cell \<in> set row. \<forall>n \<in> set (snd cell). absorbed n" "2 \<le> depth p"
    "current_cell p = Some c"
  shows "feed p (render_row row) = p\<lparr>current_cell := Some (c @ concat (map cell_texts row))\<rparr>"
proof -
  have "feed p (render_row row) = handle_endtag (feed p (concat (map render_cell row))) ''tr''"
    using assms(2) by (simp add: render_row_def feed_Cons feed_append feed_Nil start_other_inside)
  also have "\<dots> = handle_endtag (p\<lparr>current_cell := Some (c @ concat (map cell_texts row))\<rparr>) ''tr''"
    by (simp only: deep_cells [OF assms])
  also have "\<dots> = p\<lparr>current_cell := Some (c @ concat (map cell_texts row))\<rparr>"
    using assms(2) by (simp add: end_other_inside)
  finally show ?thesis .
qed

lemma deep_rows:
  "\<forall>row \<in> set rows. \<forall>cell \<in> set row. \<forall>n \<in> set (snd cell). absorbed n \<Longrightarrow> 2 \<le> depth p \<Longrightarrow>
   current_cell p = Some c \<Longrightarrow>
   feed p (concat (map render_row rows))
     = p\<lparr>current_cell := Some (c @ concat (map (\<lambda>row. concat (map cell_texts row)) rows))\<rparr>"
proof (induction rows arbitrary: p c)
  case Nil
  then show ?case by (simp add: feed_Nil)
next
  case (Cons row rows)
  have a: "feed p (render_row row) = p\<lparr>current_cell := Some (c @ concat (map cell_texts row))\<rparr>"
    using Cons.prems by (intro deep_row) simp_all
  have "feed (p\<lparr>current_cell := Some (c @ concat (map cell_texts row))\<rparr>)
        (concat (map render_row rows))
      = p\<lparr>current_cell := Some (c @ concat (map cell_texts row))\<rparr>
         \<lparr>current_cell := Some ((c @ concat (map cell_texts row))
            @ concat (map (\<lambda>row. concat (map cell_texts row)) rows))\<rparr>"
    using Cons.prems by (intro Cons.IH) simp_all
  with a show ?case by (simp add: feed_append)
qed

lemma absorbed_all: "absorbed n"
proof (induction n)
  case (Text s)
  show ?case by (simp add: absorbed_def feed_Cons feed_Nil handle_data_open)
next
  case (Table rows)
  then have ih: "\<forall>row \<in> set rows. \<forall>cell \<in> set row. \<forall>n \<in> set (snd cell). absorbed n"
    by (auto simp: snds.simps)
  show ?case
    unfolding absorbed_def
  proof (intro allI impI)
    fix p :: parser and c assume pc: "1 \<le> depth p \<and> current_cell p = Some c"
    let ?q = "p\<lparr>depth := depth p + 1\<rparr>"
    let ?t = "concat (map (\<lambda>row. concat (map cell_texts row)) rows)"
    have q: "2 \<le> depth ?q" "current_cell ?q = Some c" using pc by simp_all
    have "feed p (render (Table rows))
        = handle_endtag (feed ?q (concat (map render_row rows))) ''table''"
      using pc by (simp only: render_Table feed_Cons feed_append feed_Nil handle.simps
          start_table_inside)
    also have "\<dots> = handle_endtag (?q\<lparr>current_cell := Some (c @ ?t)\<rparr>) ''table''"
      by (simp only: deep_rows [OF ih q])
    also have "\<dots> = p\<lparr>current_cell := Some (c @ ?t)\<rparr>"
      using pc by (simp add: end_table_inside)
    finally show "feed p (render (Table rows)) = p\<lparr>current_cell := Some (c @ texts (Table rows))\<rparr>"
      by (simp only: texts_Table)
  qed
qed

lemma start_cell_outer:
  "depth p = 1 \<Longrightarrow> current_row p = Some r \<Longrightarrow>
   handle_starttag p (cell_tag k) = p\<lparr>current_cell := Some []\<rparr>"
  by (cases k) (simp_all add: handle_starttag_def)

lemma end_cell_outer:
  "depth p = 1 \<Longrightarrow> current_row p = Some r \<Longrightarrow> current_cell p = Some c \<Longrightarrow>
   handle_endtag p (cell_tag k)
     = p\<lparr>current_row := Some (r @ [strip (join '' '' c)]), current_cell := None\<rparr>"
  by (cases k) (simp_all add: handle_endtag_def Let_def)

lemma start_row_outer: "depth p = 1 \<Longrightarrow> handle_starttag p ''tr'' = p\<lparr>current_row := Some []\<rparr>"
  by (simp add: handle_starttag_def)

lemma end_row_outer:
  "depth p = 1 \<Longrightarrow> current_row p = Some r \<Longrightarrow> current_table p = Some t \<Longrightarrow>
   handle_endtag p ''tr''
     = p\<lparr>current_table := Some (if r \<noteq> [] then t @ [r] else t), current_row := None\<rparr>"
  by (simp add: handle_endtag_def Let_def)

lemma start_table_outer:
  "depth p = 0 \<Longrightarrow> handle_starttag p ''table'' = p\<lparr>depth := 1, current_table := Some []\<rparr>"
  by (simp add: handle_starttag_def Let_def)

lemma end_table_outer:
  "depth p = 1 \<Longrightarrow> current_table p = Some t \<Longrightarrow>
   handle_endtag p ''table'' = p\<lparr>tables := tables p @ [t], current_table := None, depth := 0\<rparr>"
  by (simp add: handle_endtag_def Let_def)

lemma outer_cell:
  assumes d: "depth p = 1" and r: "current_row p = Some r"
  shows "feed p (render_cell cell)
    = p\<lparr>current_row := Some (r @ [cell_text cell]), current_cell := None\<rparr>"
proof -
  let ?q = "p\<lparr>current_cell := Some []\<rparr>"
  have q: "1 \<le> depth ?q" "current_cell ?q = Some []" using d by simp_all
  have all: "\<forall>n \<in> set (snd cell). absorbed n" by (simp add: absorbed_all)
  have "feed p (render_cell cell)
      = handle_endtag (feed ?q (concat (map render (snd cell)))) (cell_tag (fst cell))"
    by (simp only: render_cell_def feed_Cons feed_append feed_Nil handle.simps
        start_cell_outer [OF d r])
  also have "\<dots> = handle_endtag (?q\<lparr>current_cell := Some ([] @ cell_texts cell)\<rparr>)
      (cell_tag (fst cell))"
    by (simp only: absorbed_nodes [OF all q] cell_texts_def)
  also have "\<dots> = p\<lparr>current_row := Some (r @ [cell_text cell]), current_cell := None\<rparr>"
    using d r by (subst end_cell_outer [where r = r and c = "cell_texts cell"])
      (simp_all add: cell_text_def cell_texts_def)
  finally show ?thesis .
qed

lemma outer_cells:
  "depth p = 1 \<Longrightarrow> current_row p = Some r \<Longrightarrow> current_cell p = None \<Longrightarrow>
   feed p (concat (map render_cell row)) = p\<lparr>current_row := Some (r @ map cell_text row)\<rparr>"
proof (induction row arbitrary: p r)
  case Nil
  then show ?case by (simp add: feed_Nil)
next
  case (Cons cell row)
  let ?q = "p\<lparr>current_row := Some (r @ [cell_text cell]), current_cell := None\<rparr>"
  have a: "feed p (render_cell cell) = ?q"
    using Cons.prems by (simp add: outer_cell)
  have "feed ?q (concat (map render_cell row))
      = ?q\<lparr>current_row := Some ((r @ [cell_text cell]) @ map cell_text row)\<rparr>"
    using Cons.prems by (intro Cons.IH) simp_all
  with a Cons.prems show ?case by (simp add: feed_append)
qed

lemma outer_row:
  assumes d: "depth p = 1" and t: "current_table p = Some t" and c: "current_cell p = None"
  shows "feed p (render_row row)
    = p\<lparr>current_table := Some (if row \<noteq> [] then t @ [map cell_text row] else t),
         current_row := None\<rparr>"
proof -
  let ?q = "p\<lparr>current_row := Some []\<rparr>"
  have q: "depth ?q = 1" "current_row ?q = Some []" "current_cell ?q = None"
    using d c by simp_all
  have "feed p (render_row row) = handle_endtag (feed ?q (concat (map render_cell row))) ''tr''"
    by (simp only: render_row_def feed_Cons feed_append feed_Nil handle.simps
        start_row_outer [OF d])
  also have "\<dots> = handle_endtag (?q\<lparr>current_row := Some ([] @ map cell_text row)\<rparr>) ''tr''"
    by (simp only: outer_cells [OF q])
  also have "\<dots> = p\<lparr>current_table := Some (if row \<noteq> [] then t @ [map cell_text row] else t),
         current_row := None\<rparr>"
    using d t by (subst end_row_outer [where r = "map cell_text row" and t = t]) simp_all
  finally show ?thesis .
qed

lemma outer_rows:
  "depth p = 1 \<Longrightarrow> current_table p = Some t \<Longrightarrow> current_cell p = None \<Longrightarrow>
   current_row p = None \<Longrightarrow>
   feed p (concat (map render_row rows))
     = p\<lparr>current_table := Some (t @ filter (\<lambda>r. r \<noteq> []) (map (map cell_text) rows))\<rparr>"
proof (induction rows arbitrary: p t)
  case Nil
  then show ?case by (simp add: feed_Nil)
next
  case (Cons row rows)
  let ?t = "if row \<noteq> [] then t @ [map cell_text row] else t"
  let ?q = "p\<lparr>current_table := Some ?t, current_row := None\<rparr>"
  have a: "feed p (render_row row) = ?q"
    using Cons.prems by (simp only: outer_row)
  have "feed ?q (concat (map render_row rows))
      = ?q\<lparr>current_table := Some (?t @ filter (\<lambda>r. r \<noteq> []) (map (map cell_text) rows))\<rparr>"
    using Cons.prems by (intro Cons.IH) simp_all
  with a Cons.prems show ?case by (simp add: feed_append)
qed

lemma outer_table:
  "feed init_parser (render (Table rows))
   = init_parser\<lparr>tables := [filter (\<lambda>r. r \<noteq> []) (map (map cell_text) rows)]\<rparr>"
proof -
  let ?q = "init_parser\<lparr>depth := 1, current_table := Some []\<rparr>"
  let ?rows = "filter (\<lambda>r. r \<noteq> []) (map (map cell_text) rows)"
  have q: "depth ?q = 1" "current_table ?q = Some []" "current_cell ?q = None"
    "current_row ?q = None"
    by (simp_all add: init_parser_def)
  have d0: "depth init_parser = 0" by (simp add: init_parser_def)
  have "feed init_parser (render (Table rows))
      = handle_endtag (feed ?q (concat (map render_row rows))) ''table''"
    by (simp only: render_Table feed_Cons feed_append feed_Nil handle.simps
        start_table_outer [OF d0])
  also have "\<dots> = handle_endtag (?q\<lparr>current_table := Some ([] @ ?rows)\<rparr>) ''table''"
    by (simp only: outer_rows [OF q])
  also have "\<dots> = init_parser\<lparr>tables := [?rows]\<rparr>"
    by (subst end_table_outer [where t = "?rows"]) (simp_all add: init_parser_def)
  finally show ?thesis .
qed

text \<open>
  Claim C3, as the code has it. For markup that is one table whose cells hold text and
  further tables, nested to any depth, \<open>extract_tables\<close> returns exactly one table. Its
  rows are the outer table's own rows that have at least one cell, in order; the rows of
  the nested tables are no rows of the result. A row without cells is dropped.
\<close>

theorem nested_table_rows:
  "extract_tables (render (Table rows)) = [filter (\<lambda>r. r \<noteq> []) (own_rows rows)]"
  by (simp only: extract_tables_def outer_table own_rows_def) simp

theorem nested_table_rows_witness:
  "extract_tables (render (Table [[(TD, [Text '' A '', Table [[(TH, [Text ''in'']),
       (TD, [Text ''x''])]], Text ''B'']), (TH, [Text ''C''])]]))
   = [[[''A in x B'', ''C'']]]"
proof -
  have "own_rows [[(TD, [Text '' A '', Table [[(TH, [Text ''in'']),
       (TD, [Text ''x''])]], Text ''B'']), (TH, [Text ''C''])]] = [[''A in x B'', ''C'']]"
    by code_simp
  with nested_table_rows [of "[[(TD, [Text '' A '', Table [[(TH, [Text ''in'']),
       (TD, [Text ''x''])]], Text ''B'']), (TH, [Text ''C''])]]"]
  show ?thesis by simp
qed

text \<open>
  An outer table with a row without cells before the row that holds the nested table:
  the result has one row, the outer table two.
\<close>

theorem nested_table_empty_row:
  "extract_tables (render (Table [[], [(TD, [Text ''A'', Table [[(TD, [Text ''in''])]]])]]))
     = [[[''A in'']]]
   \<and> own_rows [[], [(TD, [Text ''A'', Table [[(TD, [Text ''in''])]]])]] = [[], [''A in'']]"
  by code_simp

text \<open>
  Claim C10. \<open>handle_data\<close> looks at the open cell only, not at the depth: while a cell is
  open, every non-blank piece of text is appended to it. So a whole table fed inside an
  open cell (the parser is then at depth 1 or more) leaves the state as it was but for the
  open cell, which has got all the text of the nested table's cells, in order.
\<close>

theorem nested_text_joins_open_cell:
  assumes "current_cell p = Some c"
  shows "handle_data p d = (if strip d = [] then p else p\<lparr>current_cell := Some (c @ [strip d])\<rparr>)
    \<and> (1 \<le> depth p
        \<longrightarrow> feed p (render (Table rows)) = p\<lparr>current_cell := Some (c @ texts (Table rows))\<rparr>)"
  using assms absorbed_all [of "Table rows"]
  by (simp add: handle_data_open absorbed_def)

theorem nested_text_joins_open_cell_witness:
  "current_cell \<lparr>tables = [], current_table = Some [], current_row = Some [],
       current_cell = Some [''A''], depth = 1\<rparr> = Some [''A'']
   \<and> feed \<lparr>tables = [], current_table = Some [], current_row = Some [],
       current_cell = Some [''A''], depth = 1\<rparr> (render (Table [[(TD, [Text ''in''])]]))
     = \<lparr>tables = [], current_table = Some [], current_row = Some [],
       current_cell = Some [''A'', ''in''], depth = 1\<rparr>
   \<and> extract_tables [StartTag ''table'', StartTag ''tr'', StartTag ''td'', Data ''A'',
       StartTag ''table'', StartTag ''tr'', StartTag ''td'', Data ''in'', EndTag ''td'',
       EndTag ''tr'', EndTag ''table'', Data ''B'', EndTag ''td'', EndTag ''tr'',
       EndTag ''table''] = [[[''A in B'']]]"
proof -
  let ?p = "\<lparr>tables = [], current_table = Some [], current_row = Some [],
       current_cell = Some [''A''], depth = 1\<rparr>"
  have c: "current_cell ?p = Some [''A'']" by simp
  have t: "texts (Table [[(TD, [Text ''in''])]]) = [''in'']" by code_simp
  have e: "extract_tables [StartTag ''table'', StartTag ''tr'', StartTag ''td'', Data ''A'',
       StartTag ''table'', StartTag ''tr'', StartTag ''td'', Data ''in'', EndTag ''td'',
       EndTag ''tr'', EndTag ''table'', Data ''B'', EndTag ''td'', EndTag ''tr'',
       EndTag ''table''] = [[[''A in B'']]]" by code_simp
  from nested_text_joins_open_cell [OF c, of "[]" "[[(TD, [Text ''in''])]]"] t e
  show ?thesis by simp
qed

section \<open>Properties of the Text Cleaner\<close>

text \<open>
  The integer of a marker is a non-empty run of decimal digits; a letter marker is a bracketed
  lower-case letter.
\<close>

definition digits :: "string \<Rightarrow> bool" where
  "digits ds = (ds \<noteq> [] \<and> list_all isdecimal ds)"


lemma bracket_not_decimal: "\<not> isdecimal CHR ''[''" "\<not> isdecimal CHR '']''"
  by (simp_all add: isdecimal_def code_def)


lemma digits_close: "digits ds \<Longrightarrow> match_digits_close (ds @ CHR '']'' # rest) = Some rest"
proof -
  assume d: "digits ds"
  then have a: "\<forall>x \<in> set ds. isdecimal x" and ne: "ds \<noteq> []"
    by (simp_all add: digits_def list_all_iff)
  have dr: "dropWhile isdecimal (ds @ CHR '']'' # rest) = CHR '']'' # rest"
    using a by (simp add: dropWhile_append bracket_not_decimal)
  have t: "takeWhile isdecimal (ds @ CHR '']'' # rest) = ds"
    using a by (simp add: takeWhile_append bracket_not_decimal)
  show ?thesis using ne by (simp add: match_digits_close_def dr t)
qed

lemma digits_close_Some:
  "match_digits_close s = Some r \<Longrightarrow> \<exists>ds. digits ds \<and> s = ds @ CHR '']'' # r"
proof -
  assume m: "match_digits_close s = Some r"
  have s: "s = takeWhile isdecimal s @ dropWhile isdecimal s" by simp
  from m have dr: "dropWhile isdecimal s = CHR '']'' # r" and ne: "takeWhile isdecimal s \<noteq> []"
    by (auto simp: match_digits_close_def split: list.splits if_splits)
  have "digits (takeWhile isdecimal s)"
    using ne by (auto simp: digits_def list_all_iff dest: set_takeWhileD)
  moreover have "s = takeWhile isdecimal s @ CHR '']'' # r" using s dr by simp
  ultimately show ?thesis by blast
qed

lemma digits_close_append:
  "match_digits_close s = Some r \<Longrightarrow> match_digits_close (s @ t) = Some (r @ t)"
proof -
  assume "match_digits_close s = Some r"
  then obtain ds where "digits ds" "s = ds @ CHR '']'' # r" using digits_close_Some by blast
  then show ?thesis using digits_close [of ds "r @ t"] by simp
qed

lemma digits_close_bracket:
  "match_digits_close s = None \<Longrightarrow> match_digits_close (s @ CHR ''['' # t) = None"
proof (cases "\<forall>x \<in> set s. isdecimal x")
  case True
  then have "dropWhile isdecimal (s @ CHR ''['' # t) = CHR ''['' # t"
    by (simp add: dropWhile_append bracket_not_decimal)
  then show ?thesis by (simp add: match_digits_close_def)
next
  case False
  assume n: "match_digits_close s = None"
  from False obtain x0 where x0: "x0 \<in> set s" "\<not> isdecimal x0" by blast
  have d: "dropWhile isdecimal (s @ CHR ''['' # t) = dropWhile isdecimal s @ CHR ''['' # t"
    using x0 by (rule dropWhile_append1)
  have tk: "takeWhile isdecimal (s @ CHR ''['' # t) = takeWhile isdecimal s"
    using x0 by (rule takeWhile_append1)
  from False have "dropWhile isdecimal s \<noteq> []" by (simp add: dropWhile_eq_Nil_conv)
  then obtain x r where xr: "dropWhile isdecimal s = x # r" by (cases "dropWhile isdecimal s") auto
  with n show ?thesis
    by (simp add: match_digits_close_def d tk split: if_splits)
qed

text \<open>A match at the start of a text is a match at the start of every longer text.\<close>

lemma match_num_append: "match_num s = Some r \<Longrightarrow> match_num (s @ t) = Some (r @ t)"
  by (cases s) (auto simp: match_num_def digits_close_append split: if_splits)

lemma starts_with_append: "starts_with k s \<Longrightarrow> starts_with k (s @ t)"
  by (induction k s rule: starts_with.induct) auto

lemma starts_with_length: "starts_with k s \<Longrightarrow> length k \<le> length s"
  by (induction k s rule: starts_with.induct) auto

lemma match_note_append: "match_note s = Some r \<Longrightarrow> match_note (s @ t) = Some (r @ t)"
proof -
  assume m: "match_note s = Some r"
  then have sw: "starts_with ''[note '' s" and d: "match_digits_close (drop 6 s) = Some r"
    by (auto simp: match_note_def split: if_splits)
  from starts_with_length [OF sw] have "6 \<le> length s" by simp
  then have "drop 6 (s @ t) = drop 6 s @ t" by simp
  with sw d show ?thesis
    by (simp add: match_note_def starts_with_append digits_close_append)
qed

lemma match_a_append: "match_a s = Some r \<Longrightarrow> match_a (s @ t) = Some (r @ t)"
proof -
  assume m: "match_a s = Some r"
  then have sw: "starts_with ''[a]'' s" and r: "r = drop 3 s"
    by (auto simp: match_a_def split: if_splits)
  from starts_with_length [OF sw] have "3 \<le> length s" by simp
  then have "drop 3 (s @ t) = drop 3 s @ t" by simp
  with sw r show ?thesis by (simp add: match_a_def starts_with_append)
qed

text \<open>No pattern has an opening bracket after its first character.\<close>

lemma starts_with_bracket:
  "starts_with k (s @ CHR ''['' # t) \<Longrightarrow> s \<noteq> [] \<Longrightarrow> CHR ''['' \<notin> set (tl k) \<Longrightarrow> starts_with k s"
proof (induction k s rule: starts_with.induct)
  case (1 t')
  then show ?case by simp
next
  case (2 k ks)
  then show ?case by simp
next
  case (3 k ks c cs)
  show ?case
  proof (cases cs)
    case Nil
    with "3.prems" show ?thesis by (cases ks) auto
  next
    case (Cons d ds)
    from "3.prems" have "CHR ''['' \<notin> set (tl ks)" by (cases ks) auto
    with "3.prems" "3.IH" Cons show ?thesis by auto
  qed
qed

lemma match_num_bracket:
  "match_num s = None \<Longrightarrow> s \<noteq> [] \<Longrightarrow> match_num (s @ CHR ''['' # t) = None"
  by (cases s) (auto simp: match_num_def digits_close_bracket split: if_splits)

lemma match_note_bracket:
  assumes n: "match_note s = None" and ne: "s \<noteq> []"
  shows "match_note (s @ CHR ''['' # t) = None"
proof (cases "starts_with ''[note '' (s @ CHR ''['' # t)")
  case False
  then show ?thesis by (simp add: match_note_def)
next
  case True
  then have sw: "starts_with ''[note '' s" using ne by (rule starts_with_bracket) simp
  with n have d: "match_digits_close (drop 6 s) = None" by (simp add: match_note_def)
  from starts_with_length [OF sw] have "6 \<le> length s" by simp
  then have "drop 6 (s @ CHR ''['' # t) = drop 6 s @ CHR ''['' # t" by simp
  with True d show ?thesis by (simp add: match_note_def digits_close_bracket)
qed

lemma match_a_bracket:
  assumes n: "match_a s = None" and ne: "s \<noteq> []"
  shows "match_a (s @ CHR ''['' # t) = None"
proof (cases "starts_with ''[a]'' (s @ CHR ''['' # t)")
  case False
  then show ?thesis by (simp add: match_a_def)
next
  case True
  then have "starts_with ''[a]'' s" using ne by (rule starts_with_bracket) simp
  with n show ?thesis by (simp add: match_a_def)
qed

text \<open>So each pass works on the text before an opening bracket as if the text ended there.\<close>

lemma sub_num_split: "sub_num (pre @ CHR ''['' # t) = sub_num pre @ sub_num (CHR ''['' # t)"
proof (induction pre rule: sub_num.induct)
  case 1
  show ?case by simp
next
  case (2 c cs)
  show ?case
  proof (cases "match_num (c # cs)")
    case None
    then have "match_num ((c # cs) @ CHR ''['' # t) = None" by (rule match_num_bracket) simp
    with None "2.IH"(1) show ?thesis by simp
  next
    case (Some rest)
    then have "match_num ((c # cs) @ CHR ''['' # t) = Some (rest @ CHR ''['' # t)"
      by (rule match_num_append)
    with Some "2.IH"(2) show ?thesis by simp
  qed
qed

lemma sub_note_split: "sub_note (pre @ CHR ''['' # t) = sub_note pre @ sub_note (CHR ''['' # t)"
proof (induction pre rule: sub_note.induct)
  case 1
  show ?case by simp
next
  case (2 c cs)
  show ?case
  proof (cases "match_note (c # cs)")
    case None
    then have "match_note ((c # cs) @ CHR ''['' # t) = None" by (rule match_note_bracket) simp
    with None "2.IH"(1) show ?thesis by simp
  next
    case (Some rest)
    then have "match_note ((c # cs) @ CHR ''['' # t) = Some (rest @ CHR ''['' # t)"
      by (rule match_note_append)
    with Some "2.IH"(2) show ?thesis by simp
  qed
qed

lemma sub_a_split: "sub_a (pre @ CHR ''['' # t) = sub_a pre @ sub_a (CHR ''['' # t)"
proof (induction pre rule: sub_a.induct)
  case 1
  show ?case by simp
next
  case (2 c cs)
  show ?case
  proof (cases "match_a (c # cs)")
    case None
    then have "match_a ((c # cs) @ CHR ''['' # t) = None" by (rule match_a_bracket) simp
    with None "2.IH"(1) show ?thesis by simp
  next
    case (Some rest)
    then have "match_a ((c # cs) @ CHR ''['' # t) = Some (rest @ CHR ''['' # t)"
      by (rule match_a_append)
    with Some "2.IH"(2) show ?thesis by simp
  qed
qed








text \<open>Each pass deletes a marker of its own kind, wherever it stands.\<close>

lemma sub_num_marker:
  assumes "digits ds"
  shows "sub_num (pre @ ''['' @ ds @ '']'' @ post) = sub_num pre @ sub_num post"
proof -
  have "match_num (CHR ''['' # ds @ CHR '']'' # post) = Some post"
    using assms by (simp add: match_num_def digits_close)
  then have "sub_num (CHR ''['' # ds @ CHR '']'' # post) = sub_num post" by simp
  with sub_num_split [of pre "ds @ CHR '']'' # post"] show ?thesis by simp
qed

lemma sub_note_marker:
  assumes "digits ds"
  shows "sub_note (pre @ ''[note '' @ ds @ '']'' @ post) = sub_note pre @ sub_note post"
proof -
  have "match_note (CHR ''['' # ''note '' @ ds @ CHR '']'' # post) = Some post"
    using assms by (simp add: match_note_def digits_close)
  then have "sub_note (CHR ''['' # ''note '' @ ds @ CHR '']'' # post) = sub_note post" by simp
  with sub_note_split [of pre "''note '' @ ds @ CHR '']'' # post"] show ?thesis by simp
qed

lemma sub_a_marker: "sub_a (pre @ ''[a]'' @ post) = sub_a pre @ sub_a post"
proof -
  have "match_a (CHR ''['' # ''a]'' @ post) = Some post" by (simp add: match_a_def)
  then have "sub_a (CHR ''['' # ''a]'' @ post) = sub_a post" by simp
  with sub_a_split [of pre "''a]'' @ post"] show ?thesis by simp
qed

text \<open>A pass leaves a text without a marker of its kind as it is.\<close>

lemma match_num_Some:
  "match_num s = Some r \<Longrightarrow> \<exists>ds. digits ds \<and> s = ''['' @ ds @ '']'' @ r"
  by (cases s) (auto simp: match_num_def split: if_splits dest!: digits_close_Some)

lemma starts_with_drop: "starts_with k s \<Longrightarrow> s = k @ drop (length k) s"
  by (induction k s rule: starts_with.induct) auto

lemma match_note_Some:
  "match_note s = Some r \<Longrightarrow> \<exists>ds. digits ds \<and> s = ''[note '' @ ds @ '']'' @ r"
proof -
  assume m: "match_note s = Some r"
  then have sw: "starts_with ''[note '' s" and d: "match_digits_close (drop 6 s) = Some r"
    by (auto simp: match_note_def split: if_splits)
  from digits_close_Some [OF d] obtain ds where ds: "digits ds" "drop 6 s = ds @ CHR '']'' # r"
    by blast
  from starts_with_drop [OF sw] have "s = ''[note '' @ drop 6 s" by (simp add: eval_nat_numeral)
  with ds show ?thesis by auto
qed

lemma match_a_Some: "match_a s = Some r \<Longrightarrow> s = ''[a]'' @ r"
proof -
  assume m: "match_a s = Some r"
  then have sw: "starts_with ''[a]'' s" and r: "r = drop 3 s"
    by (auto simp: match_a_def split: if_splits)
  from starts_with_drop [OF sw] r show ?thesis by (simp add: eval_nat_numeral)
qed

lemma sub_num_id:
  "\<not> (\<exists>pre ds post. digits ds \<and> s = pre @ ''['' @ ds @ '']'' @ post) \<Longrightarrow> sub_num s = s"
proof (induction s)
  case Nil
  show ?case by simp
next
  case (Cons c cs)
  have none: "match_num (c # cs) = None"
  proof (cases "match_num (c # cs)")
    case (Some r)
    from match_num_Some [OF Some] obtain ds where
      "digits ds" "c # cs = [] @ ''['' @ ds @ '']'' @ r" by auto
    with Cons.prems show ?thesis by blast
  qed simp
  have "\<not> (\<exists>pre ds post. digits ds \<and> cs = pre @ ''['' @ ds @ '']'' @ post)"
  proof
    assume "\<exists>pre ds post. digits ds \<and> cs = pre @ ''['' @ ds @ '']'' @ post"
    then obtain pre ds post where "digits ds" "cs = pre @ ''['' @ ds @ '']'' @ post" by blast
    then have "digits ds \<and> c # cs = (c # pre) @ ''['' @ ds @ '']'' @ post" by simp
    with Cons.prems show False by blast
  qed
  with Cons.IH none show ?case by simp
qed

lemma sub_note_id:
  "\<not> (\<exists>pre ds post. digits ds \<and> s = pre @ ''[note '' @ ds @ '']'' @ post) \<Longrightarrow> sub_note s = s"
proof (induction s)
  case Nil
  show ?case by simp
next
  case (Cons c cs)
  have none: "match_note (c # cs) = None"
  proof (cases "match_note (c # cs)")
    case (Some r)
    from match_note_Some [OF Some] obtain ds where
      "digits ds" "c # cs = [] @ ''[note '' @ ds @ '']'' @ r" by auto
    with Cons.prems show ?thesis by blast
  qed simp
  have "\<not> (\<exists>pre ds post. digits ds \<and> cs = pre @ ''[note '' @ ds @ '']'' @ post)"
  proof
    assume "\<exists>pre ds post. digits ds \<and> cs = pre @ ''[note '' @ ds @ '']'' @ post"
    then obtain pre ds post where "digits ds" "cs = pre @ ''[note '' @ ds @ '']'' @ post" by blast
    then have "digits ds \<and> c # cs = (c # pre) @ ''[note '' @ ds @ '']'' @ post" by simp
    with Cons.prems show False by blast
  qed
  with Cons.IH none show ?case by simp
qed

lemma sub_a_id: "\<not> (\<exists>pre post. s = pre @ ''[a]'' @ post) \<Longrightarrow> sub_a s = s"
proof (induction s)
  case Nil
  show ?case by simp
next
  case (Cons c cs)
  have none: "match_a (c # cs) = None"
  proof (cases "match_a (c # cs)")
    case (Some r)
    from match_a_Some [OF Some] have "c # cs = [] @ ''[a]'' @ r" by simp
    with Cons.prems show ?thesis by blast
  qed simp
  have "\<not> (\<exists>pre post. cs = pre @ ''[a]'' @ post)"
  proof
    assume "\<exists>pre post. cs = pre @ ''[a]'' @ post"
    then obtain pre post where "cs = pre @ ''[a]'' @ post" by blast
    then have "c # cs = (c # pre) @ ''[a]'' @ post" by simp
    with Cons.prems show False by blast
  qed
  with Cons.IH none show ?case by simp
qed

text \<open>
  The two laws say all there is to say about a pass: a function that obeys them is the pass.
\<close>

lemma sub_num_determined:
  assumes del: "\<And>pre ds post. digits ds
      \<Longrightarrow> f (pre @ ''['' @ ds @ '']'' @ post) = f pre @ f post"
    and keep: "\<And>s. \<not> (\<exists>pre ds post. digits ds \<and> s = pre @ ''['' @ ds @ '']'' @ post)
      \<Longrightarrow> f s = s"
  shows "f s = sub_num s"
proof (induction s rule: length_induct)
  case (1 s)
  show ?case
  proof (cases "\<exists>pre ds post. digits ds \<and> s = pre @ ''['' @ ds @ '']'' @ post")
    case True
    then obtain p d q where d: "digits d" and s: "s = p @ ''['' @ d @ '']'' @ q" by blast
    have "length p < length s" "length q < length s" using s by simp_all
    with 1 have "f p = sub_num p" "f q = sub_num q" by blast+
    then show ?thesis unfolding s by (simp only: del [OF d] sub_num_marker [OF d])
  next
    case False
    show ?thesis by (simp only: keep [OF False] sub_num_id [OF False])
  qed
qed

lemma sub_note_determined:
  assumes del: "\<And>pre ds post. digits ds
      \<Longrightarrow> f (pre @ ''[note '' @ ds @ '']'' @ post) = f pre @ f post"
    and keep: "\<And>s. \<not> (\<exists>pre ds post. digits ds \<and> s = pre @ ''[note '' @ ds @ '']'' @ post)
      \<Longrightarrow> f s = s"
  shows "f s = sub_note s"
proof (induction s rule: length_induct)
  case (1 s)
  show ?case
  proof (cases "\<exists>pre ds post. digits ds \<and> s = pre @ ''[note '' @ ds @ '']'' @ post")
    case True
    then obtain p d q where d: "digits d" and s: "s = p @ ''[note '' @ d @ '']'' @ q" by blast
    have "length p < length s" "length q < length s" using s by simp_all
    with 1 have "f p = sub_note p" "f q = sub_note q" by blast+
    then show ?thesis unfolding s by (simp only: del [OF d] sub_note_marker [OF d])
  next
    case False
    show ?thesis by (simp only: keep [OF False] sub_note_id [OF False])
  qed
qed

lemma sub_a_determined:
  assumes del: "\<And>pre post. f (pre @ ''[a]'' @ post) = f pre @ f post"
    and keep: "\<And>s. \<not> (\<exists>pre post. s = pre @ ''[a]'' @ post) \<Longrightarrow> f s = s"
  shows "f s = sub_a s"
proof (induction s rule: length_induct)
  case (1 s)
  show ?case
  proof (cases "\<exists>pre post. s = pre @ ''[a]'' @ post")
    case True
    then obtain p q where s: "s = p @ ''[a]'' @ q" by blast
    have "length p < length s" "length q < length s" using s by simp_all
    with 1 have "f p = sub_a p" "f q = sub_a q" by blast+
    then show ?thesis unfolding s by (simp only: del sub_a_marker)
  next
    case False
    show ?thesis by (simp only: keep [OF False] sub_a_id [OF False])
  qed
qed










































end
